theory Spec2Isabelle
  imports Complex_Main "HOL-Library.Word"
begin

unbundle bit_operations_syntax

section \<open>Platform values\<close>

text \<open>
  The audio code lives in three files: \<^verbatim>\<open>src/components/LiveInterface.tsx\<close> (the live
  conversation: transport codec, PCM decoder, capture callback, playback scheduling and
  the session flag), \<^verbatim>\<open>src/components/AudioOverview.tsx\<close> and the studio hub
  (\<^verbatim>\<open>src/unnamed/part_000\<close>), which both carry their own copy of the PCM decoder.

  A \<^verbatim>\<open>Uint8Array\<close> is a list of 8-bit words, an \<^verbatim>\<open>Int16Array\<close> a list of 16-bit
  words. A JavaScript string is its list of UTF-16 code units, each a natural number.
  Exceptions thrown by the platform are values of \<open>js_error\<close>.
\<close>

type_synonym uint8 = "8 word"
type_synonym int16 = "16 word"
type_synonym js_string = "nat list"

datatype js_error =
  InvalidCharacterError | RangeError | NotSupportedError | IndexSizeError | TypeError

definition js :: "string \<Rightarrow> js_string" where
  "js s = map of_char s"

text \<open>
  A JavaScript number, as far as this code can see one: a finite value, \<^verbatim>\<open>NaN\<close> or an
  infinity. Finite values are rationals and the arithmetic on them is exact. For the PCM
  code this is what the hardware computes: a 16-bit integer divided by \<open>2^15\<close> has at
  most 16 significant bits, so it is a binary32 value and storing it in a
  \<^verbatim>\<open>Float32Array\<close> does not round; a binary32 value times \<open>2^15\<close> is a binary64
  value. For the playback clock, exact addition idealises binary64 addition.
\<close>

datatype js_number = Finite rat | NaN | PosInfinity | NegInfinity

section \<open>Transport codec: \<^verbatim>\<open>btoa\<close>, \<^verbatim>\<open>atob\<close>, \<^verbatim>\<open>encode\<close>, \<^verbatim>\<open>decode\<close>\<close>

text \<open>
  \<^verbatim>\<open>btoa\<close> and \<^verbatim>\<open>atob\<close> are built into the browser. They are modelled after the HTML
  Standard: \<^verbatim>\<open>btoa\<close> throws on a code unit above 255 and otherwise applies RFC 4648
  base64 with padding; \<^verbatim>\<open>atob\<close> is the forgiving base64 decoder (strip ASCII
  whitespace; drop one or two trailing \<^verbatim>\<open>=\<close> when the length is a multiple of four;
  fail when the length is 1 modulo 4 or a character is outside the alphabet; decode
  groups of four, dropping the spare bits of a final group of two or three).
\<close>

definition b64_char :: "nat \<Rightarrow> nat" where
  "b64_char i =
     (if i < 26 then 65 + i
      else if i < 52 then 97 + (i - 26)
      else if i < 62 then 48 + (i - 52)
      else if i = 62 then 43 else 47)"

definition b64_index :: "nat \<Rightarrow> nat option" where
  "b64_index c =
     (if 65 \<le> c \<and> c \<le> 90 then Some (c - 65)
      else if 97 \<le> c \<and> c \<le> 122 then Some (c - 71)
      else if 48 \<le> c \<and> c \<le> 57 then Some (c + 4)
      else if c = 43 then Some 62
      else if c = 47 then Some 63
      else None)"

fun b64_encode :: "nat list \<Rightarrow> nat list" where
  "b64_encode (a # b # c # rest) =
     b64_char (a div 4) # b64_char ((a mod 4) * 16 + b div 16) #
     b64_char ((b mod 16) * 4 + c div 64) # b64_char (c mod 64) # b64_encode rest"
| "b64_encode [a, b] =
     [b64_char (a div 4), b64_char ((a mod 4) * 16 + b div 16), b64_char ((b mod 16) * 4), 61]"
| "b64_encode [a] = [b64_char (a div 4), b64_char ((a mod 4) * 16), 61, 61]"
| "b64_encode [] = []"

definition btoa :: "js_string \<Rightarrow> js_error + js_string" where
  "btoa s = (if list_ex (\<lambda>c. 255 < c) s then Inl InvalidCharacterError else Inr (b64_encode s))"

definition is_ascii_whitespace :: "nat \<Rightarrow> bool" where
  "is_ascii_whitespace c = (c = 9 \<or> c = 10 \<or> c = 12 \<or> c = 13 \<or> c = 32)"

definition strip_padding :: "js_string \<Rightarrow> js_string" where
  "strip_padding d =
     (if d \<noteq> [] \<and> length d mod 4 = 0 then
        (if last d = 61 \<and> last (butlast d) = 61 then butlast (butlast d)
         else if last d = 61 then butlast d
         else d)
      else d)"

fun b64_decode :: "nat list \<Rightarrow> nat list" where
  "b64_decode (i # j # k # l # rest) =
     (i * 4 + j div 16) # ((j mod 16) * 16 + k div 4) # ((k mod 4) * 64 + l) # b64_decode rest"
| "b64_decode [i, j, k] = [i * 4 + j div 16, (j mod 16) * 16 + k div 4]"
| "b64_decode [i, j] = [i * 4 + j div 16]"
| "b64_decode [i] = []"
| "b64_decode [] = []"

definition atob :: "js_string \<Rightarrow> js_error + js_string" where
  "atob s =
     (let d = strip_padding (filter (\<lambda>c. \<not> is_ascii_whitespace c) s) in
      if length d mod 4 = 1 then Inl InvalidCharacterError
      else case those (map b64_index d) of
             None \<Rightarrow> Inl InvalidCharacterError
           | Some ix \<Rightarrow> Inr (b64_decode ix))"

text \<open>
  \<^verbatim>\<open>encode\<close> (LiveInterface.tsx, lines 5 to 12): the loop appends
  \<^verbatim>\<open>String.fromCharCode(bytes[i])\<close> to \<^verbatim>\<open>binary\<close>, then \<^verbatim>\<open>btoa(binary)\<close>.
\<close>

function encode_loop :: "uint8 list \<Rightarrow> nat \<Rightarrow> js_string \<Rightarrow> js_string" where
  "encode_loop bytes i binary =
     (if i < length bytes then encode_loop bytes (i + 1) (binary @ [unat (bytes ! i)])
      else binary)"
  by pat_completeness auto
termination
  by (relation "measure (\<lambda>(bytes, i, binary). length bytes - i)") auto

definition encode :: "uint8 list \<Rightarrow> js_error + js_string" where
  "encode bytes = btoa (encode_loop bytes 0 [])"

text \<open>
  \<^verbatim>\<open>decode\<close> (lines 14 to 22): \<^verbatim>\<open>atob\<close>, a zero-filled \<^verbatim>\<open>Uint8Array\<close> of the
  string's length, and a loop storing \<^verbatim>\<open>charCodeAt(i)\<close>; the store keeps the low eight
  bits.
\<close>

function decode_loop :: "js_string \<Rightarrow> nat \<Rightarrow> uint8 list \<Rightarrow> uint8 list" where
  "decode_loop binaryString i bytes =
     (if i < length binaryString
      then decode_loop binaryString (i + 1) (bytes[i := of_nat (binaryString ! i)])
      else bytes)"
  by pat_completeness auto
termination
  by (relation "measure (\<lambda>(s, i, bytes). length s - i)") auto

definition decode :: "js_string \<Rightarrow> js_error + uint8 list" where
  "decode base64 =
     (case atob base64 of
        Inl e \<Rightarrow> Inl e
      | Inr binaryString \<Rightarrow>
          Inr (decode_loop binaryString 0 (replicate (length binaryString) 0)))"

section \<open>PCM capture: the \<^verbatim>\<open>onaudioprocess\<close> callback\<close>

text \<open>
  Lines 67 to 74. The assignment \<^verbatim>\<open>int16[i] = inputData[i] * 32768\<close> multiplies and
  stores into an \<^verbatim>\<open>Int16Array\<close>; the store is ECMAScript's \<open>ToInt16\<close>: truncate
  towards zero, reduce modulo \<open>2^16\<close>, read as two's complement; a value that is not
  finite becomes 0. The specification calls this step \<^verbatim>\<open>floatSampleToPcm16\<close>.
\<close>

definition js_truncate :: "rat \<Rightarrow> int" where
  "js_truncate q = (if 0 \<le> q then \<lfloor>q\<rfloor> else - \<lfloor>- q\<rfloor>)"

fun ToInt16 :: "js_number \<Rightarrow> int16" where
  "ToInt16 (Finite q) = word_of_int (js_truncate q)"
| "ToInt16 NaN = 0"
| "ToInt16 PosInfinity = 0"
| "ToInt16 NegInfinity = 0"

fun times_32768 :: "js_number \<Rightarrow> js_number" where
  "times_32768 (Finite q) = Finite (q * 32768)"
| "times_32768 NaN = NaN"
| "times_32768 PosInfinity = PosInfinity"
| "times_32768 NegInfinity = NegInfinity"

definition floatSampleToPcm16 :: "js_number \<Rightarrow> int16" where
  "floatSampleToPcm16 sample = ToInt16 (times_32768 sample)"

function int16_loop :: "js_number list \<Rightarrow> nat \<Rightarrow> int16 list \<Rightarrow> int16 list" where
  "int16_loop inputData i int16 =
     (if i < length inputData
      then int16_loop inputData (i + 1) (int16[i := floatSampleToPcm16 (inputData ! i)])
      else int16)"
  by pat_completeness auto
termination
  by (relation "measure (\<lambda>(inputData, i, int16). length inputData - i)") auto

text \<open>
  Typed-array views share the bytes of one buffer, in the byte order of the platform,
  which is little-endian on every platform a browser runs on.
  \<^verbatim>\<open>new Int16Array(buffer)\<close> throws a \<^verbatim>\<open>RangeError\<close> on an odd byte length.
\<close>

fun uint8_view :: "int16 list \<Rightarrow> uint8 list" where
  "uint8_view [] = []"
| "uint8_view (w # ws) = ucast w # ucast (drop_bit 8 w) # uint8_view ws"

fun int16_pairs :: "uint8 list \<Rightarrow> int16 list" where
  "int16_pairs (lo # hi # rest) = (ucast lo OR push_bit 8 (ucast hi)) # int16_pairs rest"
| "int16_pairs [lo] = []"
| "int16_pairs [] = []"

definition int16_view :: "uint8 list \<Rightarrow> js_error + int16 list" where
  "int16_view bytes = (if odd (length bytes) then Inl RangeError else Inr (int16_pairs bytes))"

record pcm_blob =
  blob_data :: js_string
  blob_mimeType :: string

definition onaudioprocess :: "js_number list \<Rightarrow> js_error + pcm_blob" where
  "onaudioprocess inputData =
     (let l = length inputData;
          int16 = int16_loop inputData 0 (replicate l 0)
      in case encode (uint8_view int16) of
           Inl e \<Rightarrow> Inl e
         | Inr d \<Rightarrow> Inr \<lparr>blob_data = d, blob_mimeType = ''audio/pcm;rate=16000''\<rparr>)"

section \<open>PCM decoder: \<^verbatim>\<open>decodeAudioData\<close>\<close>

text \<open>
  An \<^verbatim>\<open>AudioBuffer\<close> holds one \<^verbatim>\<open>Float32Array\<close> per channel; its \<^verbatim>\<open>duration\<close> is
  the length divided by the sample rate. \<^verbatim>\<open>createBuffer\<close> is a method of the
  \<^verbatim>\<open>AudioContext\<close> that \<^verbatim>\<open>decodeAudioData\<close> is given. It throws
  \<^verbatim>\<open>NotSupportedError\<close> when an argument is zero or negative, when there are more
  channels than the platform supports, and when the sample rate is outside the range the
  platform supports. These limits differ between browsers (the Web Audio specification
  asks for at least 32 channels and at least the rates from 8000 to 96000), so a context
  is modelled by them. Its length argument is an unsigned long, so the caller's quotient
  is truncated. \<^verbatim>\<open>getChannelData\<close> throws
  \<^verbatim>\<open>IndexSizeError\<close> for a channel the buffer does not have and otherwise returns the
  channel's own array, so that stores into it change the buffer.
\<close>

record audio_buffer =
  ab_numberOfChannels :: nat
  ab_length :: nat
  ab_sampleRate :: rat
  ab_channels :: "js_number list list"

definition duration :: "audio_buffer \<Rightarrow> rat" where
  "duration b = of_nat (ab_length b) / ab_sampleRate b"

record audio_context =
  ctx_maxChannels :: nat
  ctx_minSampleRate :: rat
  ctx_maxSampleRate :: rat

definition createBuffer ::
  "audio_context \<Rightarrow> nat \<Rightarrow> nat \<Rightarrow> rat \<Rightarrow> js_error + audio_buffer" where
  "createBuffer ctx numberOfChannels len sampleRate =
     (if numberOfChannels = 0 \<or> ctx_maxChannels ctx < numberOfChannels \<or> len = 0 \<or>
         sampleRate \<le> 0 \<or> sampleRate < ctx_minSampleRate ctx \<or>
         ctx_maxSampleRate ctx < sampleRate
      then Inl NotSupportedError
      else Inr \<lparr>ab_numberOfChannels = numberOfChannels, ab_length = len,
                ab_sampleRate = sampleRate,
                ab_channels = replicate numberOfChannels (replicate len (Finite 0))\<rparr>)"

definition getChannelData :: "audio_buffer \<Rightarrow> nat \<Rightarrow> js_error + js_number list" where
  "getChannelData b channel =
     (if channel < length (ab_channels b) then Inr (ab_channels b ! channel)
      else Inl IndexSizeError)"

text \<open>
  The expression \<^verbatim>\<open>dataInt16[k] / 32768.0\<close>: reading past the end of a typed array
  gives \<^verbatim>\<open>undefined\<close>, and the quotient is then \<^verbatim>\<open>NaN\<close>. A store past the end of a
  typed array is ignored. The specification calls the conversion of one sample
  \<^verbatim>\<open>pcm16ToFloatBuffer\<close>'s normalisation.
\<close>

definition int16_div_32768 :: "int16 \<Rightarrow> js_number" where
  "int16_div_32768 v = Finite (of_int (sint v) / 32768)"

definition sample_at :: "int16 list \<Rightarrow> nat \<Rightarrow> js_number" where
  "sample_at dataInt16 k =
     (if k < length dataInt16 then int16_div_32768 (dataInt16 ! k) else NaN)"

definition store_f32 :: "js_number list \<Rightarrow> nat \<Rightarrow> js_number \<Rightarrow> js_number list" where
  "store_f32 arr i v = (if i < length arr then arr[i := v] else arr)"

subsection \<open>The copy in LiveInterface.tsx (lines 24 to 41)\<close>

text \<open>
  \<^verbatim>\<open>frameCount\<close> is the quotient \<^verbatim>\<open>dataInt16.length / numChannels\<close>, a fraction when
  the division is not exact; the inner loop compares its counter with it. With no
  channels the quotient is not a finite number, and \<^verbatim>\<open>createBuffer\<close> rejects the channel
  count whatever its length argument is. Array lengths stay below \<open>2^32\<close>, so the
  conversion of the length argument to an unsigned long only truncates.
\<close>

function live_inner ::
  "int16 list \<Rightarrow> nat \<Rightarrow> nat \<Rightarrow> rat \<Rightarrow> nat \<Rightarrow> js_number list \<Rightarrow> js_number list" where
  "live_inner dataInt16 numChannels channel frameCount i channelData =
     (if of_nat i < frameCount
      then live_inner dataInt16 numChannels channel frameCount (i + 1)
             (store_f32 channelData i (sample_at dataInt16 (i * numChannels + channel)))
      else channelData)"
  by pat_completeness auto
termination
  by (relation "measure (\<lambda>(d, n, c, frameCount, i, cd). nat \<lceil>frameCount\<rceil> - i)")
     (auto simp: zless_nat_eq_int_zless less_ceiling_iff intro!: diff_less_mono2)

function live_outer ::
  "int16 list \<Rightarrow> nat \<Rightarrow> rat \<Rightarrow> nat \<Rightarrow> audio_buffer \<Rightarrow> js_error + audio_buffer" where
  "live_outer dataInt16 numChannels frameCount channel buffer =
     (if channel < numChannels then
        (case getChannelData buffer channel of
           Inl e \<Rightarrow> Inl e
         | Inr channelData \<Rightarrow>
             live_outer dataInt16 numChannels frameCount (channel + 1)
               (buffer\<lparr>ab_channels := (ab_channels buffer)
                  [channel := live_inner dataInt16 numChannels channel frameCount 0 channelData]\<rparr>))
      else Inr buffer)"
  by pat_completeness auto
termination
  by (relation "measure (\<lambda>(d, numChannels, f, channel, b). numChannels - channel)") auto

definition decodeAudioData ::
  "uint8 list \<Rightarrow> audio_context \<Rightarrow> rat \<Rightarrow> nat \<Rightarrow> js_error + audio_buffer" where
  "decodeAudioData data ctx sampleRate numChannels =
     (case int16_view data of
        Inl e \<Rightarrow> Inl e
      | Inr dataInt16 \<Rightarrow>
          (let frameCount = of_nat (length dataInt16) / of_nat numChannels in
           case createBuffer ctx numChannels (nat \<lfloor>frameCount\<rfloor>) sampleRate of
             Inl e \<Rightarrow> Inl e
           | Inr buffer \<Rightarrow> live_outer dataInt16 numChannels frameCount 0 buffer))"

subsection \<open>The copy in AudioOverview.tsx (lines 20 to 37)\<close>

function overview_inner ::
  "int16 list \<Rightarrow> nat \<Rightarrow> nat \<Rightarrow> rat \<Rightarrow> nat \<Rightarrow> js_number list \<Rightarrow> js_number list" where
  "overview_inner dataInt16 numChannels channel frameCount i channelData =
     (if of_nat i < frameCount
      then overview_inner dataInt16 numChannels channel frameCount (i + 1)
             (store_f32 channelData i (sample_at dataInt16 (i * numChannels + channel)))
      else channelData)"
  by pat_completeness auto
termination
  by (relation "measure (\<lambda>(d, n, c, frameCount, i, cd). nat \<lceil>frameCount\<rceil> - i)")
     (auto simp: zless_nat_eq_int_zless less_ceiling_iff intro!: diff_less_mono2)

function overview_outer ::
  "int16 list \<Rightarrow> nat \<Rightarrow> rat \<Rightarrow> nat \<Rightarrow> audio_buffer \<Rightarrow> js_error + audio_buffer" where
  "overview_outer dataInt16 numChannels frameCount channel buffer =
     (if channel < numChannels then
        (case getChannelData buffer channel of
           Inl e \<Rightarrow> Inl e
         | Inr channelData \<Rightarrow>
             overview_outer dataInt16 numChannels frameCount (channel + 1)
               (buffer\<lparr>ab_channels := (ab_channels buffer)
                  [channel := overview_inner dataInt16 numChannels channel frameCount 0 channelData]\<rparr>))
      else Inr buffer)"
  by pat_completeness auto
termination
  by (relation "measure (\<lambda>(d, numChannels, f, channel, b). numChannels - channel)") auto

definition overview_decodeAudioData ::
  "uint8 list \<Rightarrow> audio_context \<Rightarrow> rat \<Rightarrow> nat \<Rightarrow> js_error + audio_buffer" where
  "overview_decodeAudioData data ctx sampleRate numChannels =
     (case int16_view data of
        Inl e \<Rightarrow> Inl e
      | Inr dataInt16 \<Rightarrow>
          (let frameCount = of_nat (length dataInt16) / of_nat numChannels in
           case createBuffer ctx numChannels (nat \<lfloor>frameCount\<rfloor>) sampleRate of
             Inl e \<Rightarrow> Inl e
           | Inr buffer \<Rightarrow> overview_outer dataInt16 numChannels frameCount 0 buffer))"

subsection \<open>The copy in the studio hub (part_000, lines 272 to 281)\<close>

function studio_inner ::
  "int16 list \<Rightarrow> nat \<Rightarrow> nat \<Rightarrow> rat \<Rightarrow> nat \<Rightarrow> js_number list \<Rightarrow> js_number list" where
  "studio_inner dataInt16 numChannels channel frameCount i channelData =
     (if of_nat i < frameCount
      then studio_inner dataInt16 numChannels channel frameCount (i + 1)
             (store_f32 channelData i (sample_at dataInt16 (i * numChannels + channel)))
      else channelData)"
  by pat_completeness auto
termination
  by (relation "measure (\<lambda>(d, n, c, frameCount, i, cd). nat \<lceil>frameCount\<rceil> - i)")
     (auto simp: zless_nat_eq_int_zless less_ceiling_iff intro!: diff_less_mono2)

function studio_outer ::
  "int16 list \<Rightarrow> nat \<Rightarrow> rat \<Rightarrow> nat \<Rightarrow> audio_buffer \<Rightarrow> js_error + audio_buffer" where
  "studio_outer dataInt16 numChannels frameCount channel buffer =
     (if channel < numChannels then
        (case getChannelData buffer channel of
           Inl e \<Rightarrow> Inl e
         | Inr channelData \<Rightarrow>
             studio_outer dataInt16 numChannels frameCount (channel + 1)
               (buffer\<lparr>ab_channels := (ab_channels buffer)
                  [channel := studio_inner dataInt16 numChannels channel frameCount 0 channelData]\<rparr>))
      else Inr buffer)"
  by pat_completeness auto
termination
  by (relation "measure (\<lambda>(d, numChannels, f, channel, b). numChannels - channel)") auto

definition studio_decodeAudioData ::
  "uint8 list \<Rightarrow> audio_context \<Rightarrow> rat \<Rightarrow> nat \<Rightarrow> js_error + audio_buffer" where
  "studio_decodeAudioData data ctx sampleRate numChannels =
     (case int16_view data of
        Inl e \<Rightarrow> Inl e
      | Inr dataInt16 \<Rightarrow>
          (let frameCount = of_nat (length dataInt16) / of_nat numChannels in
           case createBuffer ctx numChannels (nat \<lfloor>frameCount\<rfloor>) sampleRate of
             Inl e \<Rightarrow> Inl e
           | Inr buffer \<Rightarrow> studio_outer dataInt16 numChannels frameCount 0 buffer))"

section \<open>The live session: playback scheduling and the session flag\<close>

text \<open>
  The component keeps \<^verbatim>\<open>isActive\<close> (React state, initially false), \<^verbatim>\<open>sessionRef\<close>
  (initially null), \<^verbatim>\<open>nextStartTimeRef\<close> (initially 0) and \<^verbatim>\<open>sourcesRef\<close> (a
  \<^verbatim>\<open>Set\<close> of source nodes; a \<^verbatim>\<open>Set\<close> iterates in insertion order, so it is a list
  without repetition). What the callbacks do to the outside is recorded next to these
  fields: the source nodes created so far, every \<^verbatim>\<open>start\<close> call with the node's buffer
  and start time, every \<^verbatim>\<open>stop\<close> call, every \<^verbatim>\<open>close\<close> call on a session, and every
  \<^verbatim>\<open>console.error\<close>.
\<close>

record source_node =
  node_id :: nat
  node_buffer :: audio_buffer
  node_start :: rat

record live_state =
  isActive :: bool
  sessionRef :: "nat option"
  nextStartTimeRef :: rat
  sourcesRef :: "source_node list"
  created :: nat
  started :: "source_node list"
  stopped :: "nat list"
  closed :: "nat list"
  console :: "string list"

definition initial_state :: live_state where
  "initial_state =
     \<lparr>isActive = False, sessionRef = None, nextStartTimeRef = 0, sourcesRef = [],
      created = 0, started = [], stopped = [], closed = [], console = []\<rparr>"

definition set_add :: "'a \<Rightarrow> 'a list \<Rightarrow> 'a list" where
  "set_add x xs = (if x \<in> set xs then xs else xs @ [x])"

definition set_delete :: "'a \<Rightarrow> 'a list \<Rightarrow> 'a list" where
  "set_delete x xs = removeAll x xs"

text \<open>
  An inbound message, as far as \<^verbatim>\<open>onmessage\<close> reads it: an optional
  \<^verbatim>\<open>serverContent\<close> with an optional \<^verbatim>\<open>modelTurn\<close> and the flag
  \<^verbatim>\<open>interrupted\<close>; a model turn with an optional array \<^verbatim>\<open>parts\<close>; a part with the
  string at \<^verbatim>\<open>inlineData?.data\<close>, if it has one.

  \<open>msg_data\<close> is the expression of line 79,
  \<^verbatim>\<open>message.serverContent?.modelTurn?.parts[0]?.inlineData?.data\<close>: a missing
  \<^verbatim>\<open>serverContent\<close> or \<^verbatim>\<open>modelTurn\<close> ends the chain with \<^verbatim>\<open>undefined\<close>; a model
  turn without \<^verbatim>\<open>parts\<close> throws a \<^verbatim>\<open>TypeError\<close>, because \<^verbatim>\<open>parts[0]\<close> is read
  without \<^verbatim>\<open>?.\<close>; an empty array has no first part. \<open>msg_interrupted\<close> is the
  expression of line 91, \<^verbatim>\<open>message.serverContent?.interrupted\<close>.
\<close>

datatype part = Part (inlineData_data: "js_string option")

datatype model_turn = ModelTurn (parts: "part list option")

record server_content =
  modelTurn :: "model_turn option"
  interrupted :: bool

record server_message =
  serverContent :: "server_content option"

definition msg_data :: "server_message \<Rightarrow> js_error + js_string option" where
  "msg_data message =
     (case serverContent message of
        None \<Rightarrow> Inr None
      | Some content \<Rightarrow>
          (case modelTurn content of
             None \<Rightarrow> Inr None
           | Some turn \<Rightarrow>
               (case parts turn of
                  None \<Rightarrow> Inl TypeError
                | Some [] \<Rightarrow> Inr None
                | Some (p # ps) \<Rightarrow> Inr (inlineData_data p))))"

definition msg_interrupted :: "server_message \<Rightarrow> bool" where
  "msg_interrupted message =
     (case serverContent message of
        None \<Rightarrow> False
      | Some content \<Rightarrow> interrupted content)"

text \<open>
  \<^verbatim>\<open>onmessage\<close> (lines 78 to 96), with \<open>now\<close> the reading of
  \<^verbatim>\<open>outputAudioContext.currentTime\<close>, which is never negative.

  \<^verbatim>\<open>outputAudioContext\<close> is created in line 55 at 24000 Hz, so it accepts buffers of
  one channel at 24000 Hz. It is given the least limits a platform may have; the decoder's
  result for one channel at 24000 Hz is the same under any limits that admit them
  (\<open>decode_any_context\<close> below).

  Line 81 is \<open>anchor\<close>; line 82 is \<open>decode_segment\<close>; lines 83 to 89 are \<open>play\<close>: a
  new source node bound to the buffer, \<^verbatim>\<open>start(nextStartTimeRef.current)\<close>, the cursor
  advanced by \<^verbatim>\<open>buffer.duration\<close>, the node added to the set. Lines 92 to 94 are
  \<open>interrupt\<close>. The specification's \<^verbatim>\<open>enqueue\<close> is \<open>anchor\<close> followed by \<open>play\<close>.
  The callback registered in line 89 is \<open>onended\<close>.

  The callback awaits line 82, but the decoder waits on nothing itself, so the rest of
  the callback runs before another message is delivered and the callback is one step.
  An empty string is falsy, so line 79 skips it. An exception leaves the callback at
  once and the interruption flag is not looked at: thrown by line 79, it leaves the
  state as it was; thrown by line 82, it leaves the cursor anchored and nothing played.
  The result pairs the new state with the exception thrown, if any.
\<close>

definition anchor :: "rat \<Rightarrow> live_state \<Rightarrow> live_state" where
  "anchor now st = st\<lparr>nextStartTimeRef := max (nextStartTimeRef st) now\<rparr>"

definition outputAudioContext :: audio_context where
  "outputAudioContext =
     \<lparr>ctx_maxChannels = 32, ctx_minSampleRate = 8000, ctx_maxSampleRate = 96000\<rparr>"

definition decode_segment :: "js_string \<Rightarrow> js_error + audio_buffer" where
  "decode_segment base64 =
     (case decode base64 of
        Inl e \<Rightarrow> Inl e
      | Inr bytes \<Rightarrow> decodeAudioData bytes outputAudioContext 24000 1)"

definition play :: "audio_buffer \<Rightarrow> live_state \<Rightarrow> live_state" where
  "play buffer st =
     (let source = \<lparr>node_id = created st, node_buffer = buffer,
                     node_start = nextStartTimeRef st\<rparr>
      in st\<lparr>created := created st + 1,
            started := started st @ [source],
            nextStartTimeRef := nextStartTimeRef st + duration buffer,
            sourcesRef := set_add source (sourcesRef st)\<rparr>)"

definition enqueue :: "rat \<Rightarrow> audio_buffer \<Rightarrow> live_state \<Rightarrow> live_state" where
  "enqueue now buffer st = play buffer (anchor now st)"

definition interrupt :: "live_state \<Rightarrow> live_state" where
  "interrupt st =
     st\<lparr>stopped := stopped st @ map node_id (sourcesRef st),
        sourcesRef := [],
        nextStartTimeRef := 0\<rparr>"

definition onended :: "source_node \<Rightarrow> live_state \<Rightarrow> live_state" where
  "onended source st = st\<lparr>sourcesRef := set_delete source (sourcesRef st)\<rparr>"

definition onmessage ::
  "rat \<Rightarrow> server_message \<Rightarrow> live_state \<Rightarrow> live_state \<times> js_error option" where
  "onmessage now message st =
     (let r = (case msg_data message of
                 Inl e \<Rightarrow> Inl (st, e)
               | Inr None \<Rightarrow> Inr st
               | Inr (Some base64) \<Rightarrow>
                   if base64 = [] then Inr st
                   else (let st1 = anchor now st in
                         case decode_segment base64 of
                           Inl e \<Rightarrow> Inl (st1, e)
                         | Inr buffer \<Rightarrow> Inr (play buffer st1)))
      in case r of
           Inl (st1, e) \<Rightarrow> (st1, Some e)
         | Inr st2 \<Rightarrow> (if msg_interrupted message then interrupt st2 else st2, None))"

text \<open>A run of the callback over timed messages; a rejected call is dropped by the runtime.\<close>

fun run_messages :: "(rat \<times> server_message) list \<Rightarrow> live_state \<Rightarrow> live_state" where
  "run_messages [] st = st"
| "run_messages ((now, message) # rest) st = run_messages rest (fst (onmessage now message st))"

text \<open>
  The other callbacks: \<^verbatim>\<open>onopen\<close> (line 64) sets the flag (and connects the microphone
  to \<^verbatim>\<open>onaudioprocess\<close>, above), \<^verbatim>\<open>onclose\<close> (line 97) clears it, \<^verbatim>\<open>onerror\<close>
  (line 98) calls \<^verbatim>\<open>console.error\<close>. Line 106 stores the
  connected session; \<^verbatim>\<open>stopSession\<close> is lines 109 to 115.
\<close>

definition onopen :: "live_state \<Rightarrow> live_state" where
  "onopen st = st\<lparr>isActive := True\<rparr>"

definition onclose :: "live_state \<Rightarrow> live_state" where
  "onclose st = st\<lparr>isActive := False\<rparr>"

definition onerror :: "string \<Rightarrow> live_state \<Rightarrow> live_state" where
  "onerror e st = st\<lparr>console := console st @ [e]\<rparr>"

definition session_connected :: "nat \<Rightarrow> live_state \<Rightarrow> live_state" where
  "session_connected session st = st\<lparr>sessionRef := Some session\<rparr>"

definition stopSession :: "live_state \<Rightarrow> live_state" where
  "stopSession st =
     (let st1 = (case sessionRef st of
                   Some session \<Rightarrow> st\<lparr>closed := closed st @ [session], sessionRef := None\<rparr>
                 | None \<Rightarrow> st)
      in st1\<lparr>isActive := False\<rparr>)"

section \<open>Predicates used in the statements\<close>

text \<open>
  A schedule is gapless-or-later: each node starts no earlier than its predecessor
  starts and no earlier than its predecessor ends.
\<close>

fun back_to_back :: "source_node list \<Rightarrow> bool" where
  "back_to_back (a # b # rest) =
     (node_start a \<le> node_start b \<and>
      node_start a + duration (node_buffer a) \<le> node_start b \<and>
      back_to_back (b # rest))"
| "back_to_back [a] = True"
| "back_to_back [] = True"

fun in_unit_range :: "js_number \<Rightarrow> bool" where
  "in_unit_range (Finite q) = (- 1 \<le> q \<and> q \<le> 1)"
| "in_unit_range NaN = False"
| "in_unit_range PosInfinity = False"
| "in_unit_range NegInfinity = False"


section \<open>Concrete inputs\<close>

text \<open>
  States and messages at which the statements below are evaluated: a session after
  \<^verbatim>\<open>onopen\<close> and the resolution of the connection, the same session with two segments
  queued, the same session after \<^verbatim>\<open>stopSession\<close>; a message whose payload is the
  base64 text of one silent sample, a message that only carries the interruption flag,
  and a message that carries the flag and a payload that is not base64; buffers of two seconds, one second and one sample at 24000 Hz.
\<close>

definition active_state :: live_state where
  "active_state = session_connected 7 (onopen initial_state)"

definition segment_A :: audio_buffer where
  "segment_A = \<lparr>ab_numberOfChannels = 1, ab_length = 48000, ab_sampleRate = 24000,
                ab_channels = [replicate 48000 (Finite 0)]\<rparr>"

definition segment_B :: audio_buffer where
  "segment_B = \<lparr>ab_numberOfChannels = 1, ab_length = 24000, ab_sampleRate = 24000,
                ab_channels = [replicate 24000 (Finite 0)]\<rparr>"

definition one_sample :: audio_buffer where
  "one_sample = \<lparr>ab_numberOfChannels = 1, ab_length = 1, ab_sampleRate = 24000,
                 ab_channels = [[Finite 0]]\<rparr>"

definition playing_state :: live_state where
  "playing_state = enqueue 1 segment_B (enqueue 0 segment_A active_state)"

definition stopped_state :: live_state where
  "stopped_state = stopSession active_state"

definition audio_message :: server_message where
  "audio_message =
     \<lparr>serverContent = Some \<lparr>modelTurn = Some (ModelTurn (Some [Part (Some (js ''AAA=''))])),
                             interrupted = False\<rparr>\<rparr>"

definition interruption_message :: server_message where
  "interruption_message = \<lparr>serverContent = Some \<lparr>modelTurn = None, interrupted = True\<rparr>\<rparr>"

definition malformed_interruption :: server_message where
  "malformed_interruption =
     \<lparr>serverContent = Some \<lparr>modelTurn = Some (ModelTurn (Some [Part (Some (js ''A''))])),
                             interrupted = True\<rparr>\<rparr>"

section \<open>Auxiliary functions of the proofs\<close>

text \<open>The 6-bit groups of a byte sequence, and the padding that follows them.\<close>

fun sextets :: "nat list \<Rightarrow> nat list" where
  "sextets (a # b # c # rest) =
     (a div 4) # ((a mod 4) * 16 + b div 16) # ((b mod 16) * 4 + c div 64) # (c mod 64) #
     sextets rest"
| "sextets [a, b] = [a div 4, (a mod 4) * 16 + b div 16, (b mod 16) * 4]"
| "sextets [a] = [a div 4, (a mod 4) * 16]"
| "sextets [] = []"

fun padding :: "nat list \<Rightarrow> nat list" where
  "padding (a # b # c # rest) = padding rest"
| "padding [a, b] = [61]"
| "padding [a] = [61, 61]"
| "padding [] = []"

text \<open>
  The invariant of a run of \<open>onmessage\<close>: the nodes started so far are back to back and
  all of them end no later than the cursor.
\<close>

definition sched_inv :: "source_node list \<Rightarrow> rat \<Rightarrow> bool" where
  "sched_inv new next =
     (back_to_back new \<and>
      list_all (\<lambda>a. node_start a \<le> next \<and> node_start a + duration (node_buffer a) \<le> next) new)"


declare encode_loop.simps [simp del]
declare decode_loop.simps [simp del]
declare int16_loop.simps [simp del]
declare live_inner.simps [simp del]
declare live_outer.simps [simp del]
declare overview_inner.simps [simp del]
declare overview_outer.simps [simp del]
declare studio_inner.simps [simp del]
declare studio_outer.simps [simp del]

section \<open>The transport codec is reversible\<close>

lemma encode_loop_eq:
  "i \<le> length bytes \<Longrightarrow> encode_loop bytes i binary = binary @ map unat (drop i bytes)"
proof (induction bytes i binary rule: encode_loop.induct)
  case (1 bytes i binary)
  show ?case
  proof (cases "i < length bytes")
    case True
    then have "drop i bytes = bytes ! i # drop (Suc i) bytes"
      by (simp add: Cons_nth_drop_Suc)
    with True 1 show ?thesis
      by (subst encode_loop.simps) simp
  next
    case False
    with 1 show ?thesis
      by (subst encode_loop.simps) simp
  qed
qed

lemma decode_loop_eq:
  "length bytes = length s \<Longrightarrow> i \<le> length s \<Longrightarrow>
   decode_loop s i bytes = take i bytes @ map of_nat (drop i s)"
proof (induction s i bytes rule: decode_loop.induct)
  case (1 s i bytes)
  show ?case
  proof (cases "i < length s")
    case True
    have d: "drop i s = s ! i # drop (Suc i) s"
      using True by (simp add: Cons_nth_drop_Suc)
    have "decode_loop s i bytes = decode_loop s (i + 1) (bytes[i := of_nat (s ! i)])"
      using True by (subst decode_loop.simps) simp
    also have "\<dots> = take (i + 1) (bytes[i := of_nat (s ! i)]) @ map of_nat (drop (i + 1) s)"
      using True 1 by simp
    also have "take (i + 1) (bytes[i := of_nat (s ! i)]) = take i bytes @ [of_nat (s ! i)]"
      using True 1(2) by (simp add: take_Suc_conv_app_nth)
    finally show ?thesis using d by simp
  next
    case False
    with 1 show ?thesis
      by (subst decode_loop.simps) simp
  qed
qed

lemma b64_index_char: "i < 64 \<Longrightarrow> b64_index (b64_char i) = Some i"
  by (auto simp: b64_index_def b64_char_def)

lemma b64_char_not_pad: "b64_char i \<noteq> 61"
  by (auto simp: b64_char_def)

lemma b64_char_not_ws: "\<not> is_ascii_whitespace (b64_char i)"
  by (auto simp: b64_char_def is_ascii_whitespace_def)


lemma b64_encode_split: "b64_encode xs = map b64_char (sextets xs) @ padding xs"
  by (induction xs rule: b64_encode.induct) simp_all

lemma sextet_lt:
  "x < 4 \<Longrightarrow> y < 16 \<Longrightarrow> x * 16 + y < (64::nat)"
  "y < 16 \<Longrightarrow> z < 4 \<Longrightarrow> y * 4 + z < (64::nat)"
  by simp_all

lemma sextets_bound: "list_all (\<lambda>x. x < 256) xs \<Longrightarrow> list_all (\<lambda>i. i < 64) (sextets xs)"
proof (induction xs rule: sextets.induct)
  case (1 a b c rest)
  then have "a < 256" "b < 256" "c < 256" by simp_all
  then have "a div 4 < 64" "b div 16 < 16" "c div 64 < 4"
    by (simp_all add: less_mult_imp_div_less)
  then have "a div 4 < 64" "a mod 4 * 16 + b div 16 < 64" "b mod 16 * 4 + c div 64 < 64"
    by (simp_all add: sextet_lt)
  with 1 show ?case by simp
next
  case (2 a b)
  then have "a < 256" "b < 256" by simp_all
  then have "a div 4 < 64" "b div 16 < 16"
    by (simp_all add: less_mult_imp_div_less)
  then have "a div 4 < 64" "a mod 4 * 16 + b div 16 < 64" "b mod 16 * 4 + 0 < 64"
    by (simp_all add: sextet_lt)
  then show ?case by simp
next
  case (3 a)
  then have "a < 256" by simp
  then have "a div 4 < 64"
    by (simp add: less_mult_imp_div_less)
  moreover have "a mod 4 * 16 + 0 < 64"
    by (rule sextet_lt) simp_all
  ultimately show ?case by simp
qed simp

lemma length_b64_encode: "length (b64_encode xs) mod 4 = 0"
  by (induction xs rule: b64_encode.induct) simp_all

lemma length_sextets: "length (sextets xs) mod 4 \<noteq> 1"
  by (induction xs rule: sextets.induct) simp_all

lemma padding_cases: "padding xs = [] \<or> padding xs = [61] \<or> padding xs = [61, 61]"
  by (induction xs rule: padding.induct) simp_all

lemma sext_arith:
  assumes "a < 256" "b < 256" "c < 256"
  shows "a div 4 * 4 + (a mod 4 * 16 + b div 16) div 16 = (a::nat)"
    and "(a mod 4 * 16 + b div 16) mod 16 * 16 + (b mod 16 * 4 + c div 64) div 4 = b"
    and "(b mod 16 * 4 + c div 64) mod 4 * 64 + c mod 64 = c"
    and "(a mod 4 * 16 + b div 16) mod 16 * 16 + (b mod 16 * 4) div 4 = b"
    and "a div 4 * 4 + (a mod 4 * 16) div 16 = a"
proof -
  have bd: "b div 16 < 16" "c div 64 < 4"
    using assms by (simp_all add: less_mult_imp_div_less)
  show "a div 4 * 4 + (a mod 4 * 16 + b div 16) div 16 = a"
    using bd by simp
  show "(a mod 4 * 16 + b div 16) mod 16 * 16 + (b mod 16 * 4 + c div 64) div 4 = b"
    using bd by simp
  show "(b mod 16 * 4 + c div 64) mod 4 * 64 + c mod 64 = c"
    using bd by simp
  show "(a mod 4 * 16 + b div 16) mod 16 * 16 + (b mod 16 * 4) div 4 = b"
    using bd by simp
  show "a div 4 * 4 + (a mod 4 * 16) div 16 = a"
    by simp
qed

lemma b64_decode_sextets: "list_all (\<lambda>x. x < 256) xs \<Longrightarrow> b64_decode (sextets xs) = xs"
proof (induction xs rule: sextets.induct)
  case (1 a b c rest)
  then have "a < 256" "b < 256" "c < 256" by simp_all
  from sext_arith(1-3)[OF this] 1 show ?case by simp
next
  case (2 a b)
  then have "a < 256" "b < 256" by simp_all
  from sext_arith(1,4)[OF this this(2)] show ?case by simp
next
  case (3 a)
  from sext_arith(5)[of a a a] 3 show ?case by simp
qed simp

lemma those_index_char:
  "list_all (\<lambda>i. i < 64) sx \<Longrightarrow> those (map b64_index (map b64_char sx)) = Some sx"
  by (induction sx) (simp_all add: b64_index_char del: map_map)

lemma strip_padding_encode: "strip_padding (b64_encode xs) = map b64_char (sextets xs)"
proof -
  let ?m = "map b64_char (sextets xs)"
  have len: "length (?m @ padding xs) mod 4 = 0"
    using length_b64_encode[of xs] by (simp only: b64_encode_split)
  have lastm: "?m \<noteq> [] \<Longrightarrow> last ?m \<noteq> 61"
    by (simp add: last_map b64_char_not_pad)
  consider "padding xs = []" | "padding xs = [61]" | "padding xs = [61, 61]"
    using padding_cases by blast
  then have "strip_padding (?m @ padding xs) = ?m"
  proof cases
    case 1
    then show ?thesis using lastm by (auto simp: strip_padding_def)
  next
    case 2
    then have ne: "?m \<noteq> []" using len by auto
    from len 2 have "length (?m @ [61]) mod 4 = 0" by simp
    with 2 ne lastm show ?thesis by (simp add: strip_padding_def butlast_append)
  next
    case 3
    from len 3 have "length (?m @ [61, 61]) mod 4 = 0" by simp
    with 3 show ?thesis by (simp add: strip_padding_def butlast_append)
  qed
  then show ?thesis by (simp only: b64_encode_split)
qed

lemma filter_ws_encode:
  "filter (\<lambda>c. \<not> is_ascii_whitespace c) (b64_encode xs) = b64_encode xs"
  by (induction xs rule: b64_encode.induct)
     (simp_all add: b64_char_not_ws, simp_all add: is_ascii_whitespace_def)

lemma atob_b64_encode:
  assumes "list_all (\<lambda>x. x < 256) xs"
  shows "atob (b64_encode xs) = Inr xs"
proof -
  have d: "strip_padding (filter (\<lambda>c. \<not> is_ascii_whitespace c) (b64_encode xs)) =
      map b64_char (sextets xs)"
    by (simp only: filter_ws_encode strip_padding_encode)
  have l: "length (map b64_char (sextets xs)) mod 4 \<noteq> 1"
    using length_sextets[of xs] by simp
  have t: "those (map b64_index (map b64_char (sextets xs))) = Some (sextets xs)"
    by (rule those_index_char[OF sextets_bound[OF assms]])
  show ?thesis
    unfolding atob_def d Let_def
    by (simp only: l t if_False option.case b64_decode_sextets[OF assms])
qed


lemma unat_u8_lt: "unat (b :: uint8) < 256"
proof -
  have "unat b < 2 ^ LENGTH(8)" by (rule unsigned_less)
  then show ?thesis by simp
qed


lemma bytes_lt_256: "list_all (\<lambda>x. x < 256) (map unat (bs :: uint8 list))"
  by (induction bs) (simp_all add: unat_u8_lt)

lemma no_wide: "\<not> list_ex (\<lambda>c. 255 < c) (map unat (bs :: uint8 list))"
proof (induction bs)
  case (Cons b bs)
  have "\<not> 255 < unat b" using unat_u8_lt[of b] by linarith
  with Cons show ?case by simp
qed simp

lemma map_of_nat_unat: "map of_nat (map unat bs) = (bs :: uint8 list)"
  by (induction bs) simp_all


lemma encode_eq: "encode bytes = Inr (b64_encode (map unat bytes))"
  by (simp add: encode_def btoa_def encode_loop_eq no_wide)


lemma decode_b64_encode: "decode (b64_encode (map unat bytes)) = Inr bytes"
proof -
  have "atob (b64_encode (map unat bytes)) = Inr (map unat bytes)"
    by (rule atob_b64_encode[OF bytes_lt_256])
  then show ?thesis
    by (simp add: decode_def decode_loop_eq map_of_nat_unat del: map_map)
qed

text \<open>
  Claim C3. For every byte sequence, \<^verbatim>\<open>encode\<close> returns a transport text, and
  \<^verbatim>\<open>decode\<close> of that text returns the original bytes exactly.
\<close>

theorem transport_roundtrip:
  "\<exists>t. encode bytes = Inr t \<and> decode t = Inr bytes"
  using encode_eq decode_b64_encode by blast


theorem transport_roundtrip_witness:
  "encode [1, 2, 3, 255, 0] = Inr (js ''AQID/wA='') \<and>
   decode (js ''AQID/wA='') = Inr [1, 2, 3, 255, 0]"
proof -
  have e: "encode [1, 2, 3, 255, 0] = Inr (js ''AQID/wA='')"
    by code_simp
  from transport_roundtrip[of "[1, 2, 3, 255, 0]"] e show ?thesis
    by simp
qed

section \<open>The PCM conversions\<close>

subsection \<open>One sample\<close>

lemma js_truncate_of_int: "js_truncate (of_int k) = k"
  by (simp add: js_truncate_def)


lemma sample_roundtrip: "floatSampleToPcm16 (int16_div_32768 v) = v"
proof -
  have "floatSampleToPcm16 (int16_div_32768 v) = word_of_int (js_truncate (of_int (sint v)))"
    by (simp add: floatSampleToPcm16_def int16_div_32768_def del: of_int_sint)
  also have "\<dots> = word_of_int (sint v)"
    by (simp only: js_truncate_of_int)
  also have "\<dots> = v"
    by simp
  finally show ?thesis .
qed







lemma int16_loop_eq:
  "length int16 = length inputData \<Longrightarrow> i \<le> length inputData \<Longrightarrow>
   int16_loop inputData i int16 = take i int16 @ map floatSampleToPcm16 (drop i inputData)"
proof (induction inputData i int16 rule: int16_loop.induct)
  case (1 inputData i int16)
  show ?case
  proof (cases "i < length inputData")
    case True
    have d: "drop i inputData = inputData ! i # drop (Suc i) inputData"
      using True by (simp add: Cons_nth_drop_Suc)
    have "int16_loop inputData i int16 =
        int16_loop inputData (i + 1) (int16[i := floatSampleToPcm16 (inputData ! i)])"
      using True by (subst int16_loop.simps) simp
    also have "\<dots> = take (i + 1) (int16[i := floatSampleToPcm16 (inputData ! i)]) @
        map floatSampleToPcm16 (drop (i + 1) inputData)"
      using True 1 by simp
    also have "take (i + 1) (int16[i := floatSampleToPcm16 (inputData ! i)]) =
        take i int16 @ [floatSampleToPcm16 (inputData ! i)]"
      using True 1(2) by (simp add: take_Suc_conv_app_nth)
    finally show ?thesis using d by simp
  next
    case False
    with 1 show ?thesis
      by (subst int16_loop.simps) simp
  qed
qed

subsection \<open>The decoder's loops\<close>

lemma length_store_f32: "length (store_f32 arr i v) = length arr"
  by (simp add: store_f32_def)

lemma nth_store_f32:
  "k < length arr \<Longrightarrow> store_f32 arr i v ! k = (if k = i then v else arr ! k)"
  by (simp add: store_f32_def)

lemma length_live_inner: "length (live_inner d n c f i cd) = length cd"
proof (induction d n c f i cd rule: live_inner.induct)
  case (1 d n c f i cd)
  show ?case
  proof (cases "of_nat i < f")
    case True
    with 1 show ?thesis
      by (subst live_inner.simps) (simp add: length_store_f32)
  next
    case False
    then show ?thesis
      by (subst live_inner.simps) simp
  qed
qed

lemma nth_live_inner:
  "k < length cd \<Longrightarrow>
   live_inner d n c f i cd ! k =
     (if i \<le> k \<and> of_nat k < f then sample_at d (k * n + c) else cd ! k)"
proof (induction d n c f i cd rule: live_inner.induct)
  case (1 d n c f i cd)
  show ?case
  proof (cases "of_nat i < f")
    case True
    have "live_inner d n c f i cd ! k =
        live_inner d n c f (i + 1) (store_f32 cd i (sample_at d (i * n + c))) ! k"
      using True by (subst live_inner.simps) simp
    also have "\<dots> = (if i + 1 \<le> k \<and> of_nat k < f then sample_at d (k * n + c)
        else store_f32 cd i (sample_at d (i * n + c)) ! k)"
      using True 1 by (simp add: length_store_f32)
    also have "\<dots> = (if i \<le> k \<and> of_nat k < f then sample_at d (k * n + c) else cd ! k)"
      using True 1(2) by (auto simp: nth_store_f32)
    finally show ?thesis .
  next
    case False
    have "\<not> (i \<le> k \<and> of_nat k < f)"
    proof
      assume a: "i \<le> k \<and> of_nat k < f"
      then have "(of_nat i :: rat) \<le> of_nat k" by simp
      with a False show False by simp
    qed
    then have "(if i \<le> k \<and> of_nat k < f then sample_at d (k * n + c) else cd ! k) = cd ! k"
      by (simp only: if_False)
    moreover have "live_inner d n c f i cd = cd"
      using False by (subst live_inner.simps) simp
    ultimately show ?thesis by simp
  qed
qed

lemma live_inner_eq:
  "live_inner d n c f 0 cd =
     map (\<lambda>k. if of_nat k < f then sample_at d (k * n + c) else cd ! k) [0..<length cd]"
  by (rule nth_equalityI) (simp_all add: length_live_inner nth_live_inner)


lemma live_outer_eq:
  "n \<le> length (ab_channels b) \<Longrightarrow>
   live_outer d n f ch b =
     Inr (b\<lparr>ab_channels :=
            map (\<lambda>c. if ch \<le> c \<and> c < n then live_inner d n c f 0 (ab_channels b ! c)
                      else ab_channels b ! c) [0..<length (ab_channels b)]\<rparr>)"
proof (induction d n f ch b rule: live_outer.induct)
  case (1 d n f ch b)
  show ?case
  proof (cases "ch < n")
    case True
    let ?b' = "b\<lparr>ab_channels := (ab_channels b)[ch := live_inner d n ch f 0 (ab_channels b ! ch)]\<rparr>"
    have g: "getChannelData b ch = Inr (ab_channels b ! ch)"
      using True 1(2) by (simp add: getChannelData_def)
    have "live_outer d n f ch b = live_outer d n f (ch + 1) ?b'"
      using True g by (subst live_outer.simps) simp
    also have "\<dots> = Inr (?b'\<lparr>ab_channels :=
            map (\<lambda>c. if ch + 1 \<le> c \<and> c < n then live_inner d n c f 0 (ab_channels ?b' ! c)
                      else ab_channels ?b' ! c) [0..<length (ab_channels ?b')]\<rparr>)"
      using True g 1 by simp
    also have "map (\<lambda>c. if ch + 1 \<le> c \<and> c < n then live_inner d n c f 0 (ab_channels ?b' ! c)
                      else ab_channels ?b' ! c) [0..<length (ab_channels ?b')] =
        map (\<lambda>c. if ch \<le> c \<and> c < n then live_inner d n c f 0 (ab_channels b ! c)
                      else ab_channels b ! c) [0..<length (ab_channels b)]"
      using True 1(2) by (auto simp: nth_list_update)
    finally show ?thesis by simp
  next
    case False
    have "map (\<lambda>c. if ch \<le> c \<and> c < n then live_inner d n c f 0 (ab_channels b ! c)
                      else ab_channels b ! c) [0..<length (ab_channels b)] = ab_channels b"
      using False by (auto intro!: nth_equalityI)
    with False show ?thesis
      by (subst live_outer.simps) simp
  qed
qed


lemma frame_index_bound:
  assumes "k < len div n" "c < n"
  shows "k * n + c < (len :: nat)"
proof -
  have "k * n + c < (k + 1) * n" using assms(2) by simp
  also have "\<dots> \<le> (len div n) * n"
    using assms(1) by (intro mult_le_mono1) simp
  also have "\<dots> \<le> len" by simp
  finally show ?thesis .
qed

lemma frame_counter_bound:
  assumes "k < len div n" "0 < n"
  shows "(of_nat k :: rat) < of_nat len / of_nat n"
proof -
  have "k * n < len" using frame_index_bound[OF assms(1), of 0] assms(2) by simp
  then have "(of_nat (k * n) :: rat) < of_nat len" by (simp only: of_nat_less_iff)
  then show ?thesis using assms(2) by (simp add: pos_less_divide_eq)
qed

lemma nat_floor_quotient: "nat \<lfloor>(of_nat a / of_nat b) :: rat\<rfloor> = a div b"
  by (simp add: floor_divide_of_nat_eq)

lemma decodeAudioData_success:
  assumes "even (length data)" "0 < n" "0 < length (int16_pairs data) div n" "0 < sr"
    and "n \<le> ctx_maxChannels ctx" "ctx_minSampleRate ctx \<le> sr" "sr \<le> ctx_maxSampleRate ctx"
  shows "decodeAudioData data ctx sr n =
     Inr \<lparr>ab_numberOfChannels = n, ab_length = length (int16_pairs data) div n,
          ab_sampleRate = sr,
          ab_channels = map (\<lambda>c. map (\<lambda>k. int16_div_32768 (int16_pairs data ! (k * n + c)))
                                    [0..<length (int16_pairs data) div n]) [0..<n]\<rparr>"
proof -
  let ?d = "int16_pairs data"
  let ?L = "length ?d div n"
  let ?f = "(of_nat (length ?d) / of_nat n) :: rat"
  let ?b = "\<lparr>ab_numberOfChannels = n, ab_length = ?L, ab_sampleRate = sr,
            ab_channels = replicate n (replicate ?L (Finite 0))\<rparr>"
  have cb: "createBuffer ctx n ?L sr = Inr ?b"
    using assms by (simp add: createBuffer_def)
  have inner: "live_inner ?d n c ?f 0 (replicate ?L (Finite 0)) =
      map (\<lambda>k. int16_div_32768 (?d ! (k * n + c))) [0..<?L]" if "c < n" for c
    unfolding live_inner_eq
    using that assms(2)
    by (auto simp: frame_counter_bound sample_at_def frame_index_bound)
  have "live_outer ?d n ?f 0 ?b =
      Inr (?b\<lparr>ab_channels :=
            map (\<lambda>c. if 0 \<le> c \<and> c < n then live_inner ?d n c ?f 0 (ab_channels ?b ! c)
                      else ab_channels ?b ! c) [0..<length (ab_channels ?b)]\<rparr>)"
    by (rule live_outer_eq) simp
  also have "map (\<lambda>c. if 0 \<le> c \<and> c < n then live_inner ?d n c ?f 0 (ab_channels ?b ! c)
                      else ab_channels ?b ! c) [0..<length (ab_channels ?b)] =
      map (\<lambda>c. map (\<lambda>k. int16_div_32768 (?d ! (k * n + c))) [0..<?L]) [0..<n]"
    by (simp add: inner)
  finally have lo: "live_outer ?d n ?f 0 ?b =
      Inr \<lparr>ab_numberOfChannels = n, ab_length = ?L, ab_sampleRate = sr,
           ab_channels = map (\<lambda>c. map (\<lambda>k. int16_div_32768 (?d ! (k * n + c))) [0..<?L]) [0..<n]\<rparr>"
    by simp
  show ?thesis
    using assms(1) cb lo
    by (simp add: decodeAudioData_def int16_view_def Let_def nat_floor_quotient)
qed

lemma decodeAudioData_Inr:
  assumes "decodeAudioData data ctx sr n = Inr buffer"
  shows "even (length data) \<and> 0 < n \<and> 0 < length (int16_pairs data) div n \<and> 0 < sr \<and>
    n \<le> ctx_maxChannels ctx \<and> ctx_minSampleRate ctx \<le> sr \<and> sr \<le> ctx_maxSampleRate ctx"
proof -
  from assms have e: "even (length data)"
    by (auto simp: decodeAudioData_def int16_view_def split: if_splits)
  with assms obtain b where
    "createBuffer ctx n (nat \<lfloor>(of_nat (length (int16_pairs data)) / of_nat n) :: rat\<rfloor>) sr = Inr b"
    by (auto simp: decodeAudioData_def int16_view_def Let_def split: sum.splits)
  then have "createBuffer ctx n (length (int16_pairs data) div n) sr = Inr b"
    by (simp only: nat_floor_quotient)
  then have "0 < n \<and> 0 < length (int16_pairs data) div n \<and> 0 < sr \<and>
    n \<le> ctx_maxChannels ctx \<and> ctx_minSampleRate ctx \<le> sr \<and> sr \<le> ctx_maxSampleRate ctx"
    by (auto simp: createBuffer_def split: if_splits)
  with e show ?thesis by simp
qed

lemma decodeAudioData_value:
  assumes "decodeAudioData data ctx sr n = Inr buffer"
  shows "buffer =
     \<lparr>ab_numberOfChannels = n, ab_length = length (int16_pairs data) div n,
      ab_sampleRate = sr,
      ab_channels = map (\<lambda>c. map (\<lambda>k. int16_div_32768 (int16_pairs data ! (k * n + c)))
                                [0..<length (int16_pairs data) div n]) [0..<n]\<rparr>"
proof -
  from decodeAudioData_Inr[OF assms]
  have "decodeAudioData data ctx sr n =
     Inr \<lparr>ab_numberOfChannels = n, ab_length = length (int16_pairs data) div n,
          ab_sampleRate = sr,
          ab_channels = map (\<lambda>c. map (\<lambda>k. int16_div_32768 (int16_pairs data ! (k * n + c)))
                                    [0..<length (int16_pairs data) div n]) [0..<n]\<rparr>"
    by (intro decodeAudioData_success) simp_all
  with assms show ?thesis by simp
qed

lemma decode_any_context:
  assumes "1 \<le> ctx_maxChannels ctx" "ctx_minSampleRate ctx \<le> 24000"
    "24000 \<le> ctx_maxSampleRate ctx"
  shows "decodeAudioData bytes ctx 24000 1 = decodeAudioData bytes outputAudioContext 24000 1"
proof -
  have "createBuffer ctx 1 len 24000 = createBuffer outputAudioContext 1 len 24000" for len
    using assms by (auto simp: createBuffer_def outputAudioContext_def)
  then show ?thesis
    by (simp only: decodeAudioData_def)
qed

lemma uint_u8_bounds: "0 \<le> uint (b :: uint8) \<and> uint b < 256"
proof -
  have "uint b < 2 ^ LENGTH(8)" by (rule unsigned_less)
  then show ?thesis by simp
qed

lemma uint_le_pair:
  "uint (ucast lo OR push_bit 8 (ucast hi) :: int16) = uint lo + 256 * uint hi"
  for lo hi :: uint8
proof -
  have t: "take_bit 16 (uint b) = uint b" for b :: uint8
    using uint_u8_bounds[of b] by (intro take_bit_int_eq_self) simp_all
  have l: "uint (ucast lo :: int16) = uint lo"
    by (simp add: unsigned_ucast_eq t)
  have p: "take_bit 16 (push_bit 8 (uint hi)) = push_bit 8 (uint hi)"
    using uint_u8_bounds[of hi] by (intro take_bit_int_eq_self) (simp_all add: push_bit_eq_mult)
  have h: "uint (push_bit 8 (ucast hi :: int16)) = push_bit 8 (uint hi)"
    by (simp add: unsigned_push_bit_eq unsigned_ucast_eq t p)
  have "\<not> bit (uint lo) n \<or> \<not> bit (push_bit 8 (uint hi)) n" for n
  proof (cases "n < 8")
    case True
    then show ?thesis by (simp add: bit_push_bit_iff)
  next
    case False
    then have "\<not> bit lo n" using bit_imp_le_length[of lo n] by auto
    then show ?thesis by (simp add: bit_uint_iff)
  qed
  then have d: "uint lo + push_bit 8 (uint hi) = uint lo OR push_bit 8 (uint hi)"
    by (rule disjunctive_add)
  have "uint (ucast lo OR push_bit 8 (ucast hi) :: int16) = uint lo OR push_bit 8 (uint hi)"
    by (simp only: unsigned_or_eq l h)
  also have "\<dots> = uint lo + push_bit 8 (uint hi)"
    by (simp only: d)
  also have "\<dots> = uint lo + 256 * uint hi"
    by (simp add: push_bit_eq_mult)
  finally show ?thesis .
qed

lemma sint_from_uint16:
  "sint (w :: int16) = (if uint w < 32768 then uint w else uint w - 65536)"
proof -
  have b: "0 \<le> uint w" "uint w < 65536"
    using unsigned_less[of w, where 'a = int] by simp_all
  have "sint w = (uint w + 32768) mod 65536 - 32768"
    by (simp add: sint_uint signed_take_bit_eq_take_bit_shift take_bit_eq_mod)
  also have "\<dots> = (if uint w < 32768 then uint w else uint w - 65536)"
  proof (cases "uint w < 32768")
    case True
    with b have "(uint w + 32768) mod 65536 = uint w + 32768" by simp
    with True show ?thesis by simp
  next
    case False
    have "uint w + 32768 = (uint w - 32768) + 65536" by linarith
    then have "(uint w + 32768) mod 65536 = ((uint w - 32768) + 65536) mod 65536"
      by (simp only:)
    also have "\<dots> = (uint w - 32768) mod 65536" by (simp only: mod_add_self2)
    also have "\<dots> = uint w - 32768" using False b by simp
    finally show ?thesis using False by simp
  qed
  finally show ?thesis .
qed

lemma nth_int16_pairs:
  "k < length bs div 2 \<Longrightarrow>
   int16_pairs bs ! k = ucast (bs ! (2 * k)) OR push_bit 8 (ucast (bs ! (2 * k + 1)))"
proof (induction bs arbitrary: k rule: int16_pairs.induct)
  case (1 lo hi rest)
  show ?case
  proof (cases k)
    case 0
    then show ?thesis by simp
  next
    case (Suc j)
    with 1 show ?thesis by simp
  qed
qed simp_all

lemma sample_of_bytes:
  assumes "k < length bs div 2"
  shows "int16_div_32768 (int16_pairs bs ! k) =
    Finite (of_int (let u = uint (bs ! (2 * k)) + 256 * uint (bs ! (2 * k + 1))
                    in if u < 32768 then u else u - 65536) / 32768)"
  by (simp add: int16_div_32768_def nth_int16_pairs[OF assms] sint_from_uint16 uint_le_pair
      Let_def del: of_int_sint)

lemma in_unit_range_sample: "in_unit_range (int16_div_32768 v)"
proof -
  have "- 32768 \<le> sint v" "sint v \<le> 32767"
    using sint_ge[of v] sint_lt[of v] by simp_all
  then have "(- 32768 :: rat) \<le> of_int (sint v)" "(of_int (sint v) :: rat) \<le> 32768"
    by (simp_all del: of_int_sint)
  then show ?thesis
    by (simp add: int16_div_32768_def pos_le_divide_eq pos_divide_le_eq del: of_int_sint)
qed

lemma in_unit_range_case:
  "in_unit_range x = (case x of Finite q \<Rightarrow> - 1 \<le> q \<and> q \<le> 1 | _ \<Rightarrow> False)"
  by (cases x) simp_all

lemma length_int16_pairs: "length (int16_pairs bs) = length bs div 2"
  by (induction bs rule: int16_pairs.induct) simp_all

lemma map_sample_roundtrip: "map floatSampleToPcm16 (map int16_div_32768 d) = d"
  by (induction d) (simp_all add: sample_roundtrip)

lemma mono_channel: "map (\<lambda>k. int16_div_32768 (d ! (k * 1 + 0))) [0..<length d div 1] = map int16_div_32768 d"
  by (rule nth_equalityI) simp_all

subsection \<open>The claims about the PCM conversions\<close>

text \<open>
  Claim C4. Converting a 16-bit sample to a float as the decoder does
  (\<^verbatim>\<open>dataInt16[k] / 32768.0\<close>) and back as the capture callback does
  (\<^verbatim>\<open>int16[i] = inputData[i] * 32768\<close>) reproduces the sample within 1; in fact it
  reproduces it exactly. The same holds for whole buffers: running the capture loop over
  the channel the decoder produced from mono data gives back the decoder's 16-bit input.
\<close>

theorem pcm16_float_roundtrip:
  "\<bar>sint (floatSampleToPcm16 (int16_div_32768 v)) - sint v\<bar> \<le> 1 \<and>
   floatSampleToPcm16 (int16_div_32768 v) = v \<and>
   (decodeAudioData data ctx sampleRate 1 = Inr buffer \<longrightarrow>
      int16_loop (ab_channels buffer ! 0) 0 (replicate (length (ab_channels buffer ! 0)) 0) =
      int16_pairs data)"
proof -
  have "int16_loop (ab_channels buffer ! 0) 0 (replicate (length (ab_channels buffer ! 0)) 0) =
      int16_pairs data" if d: "decodeAudioData data ctx sampleRate 1 = Inr buffer"
  proof -
    from decodeAudioData_value[OF d]
    have "ab_channels buffer = [map int16_div_32768 (int16_pairs data)]"
      using mono_channel[of "int16_pairs data"] by auto
    then show ?thesis
      by (simp add: int16_loop_eq map_sample_roundtrip del: map_map)
  qed
  then show ?thesis
    by (simp add: sample_roundtrip)
qed

theorem pcm16_float_roundtrip_witness:
  "decodeAudioData [0, 0, 255, 127, 0, 128, 1, 0] outputAudioContext 24000 1 =
     Inr \<lparr>ab_numberOfChannels = 1, ab_length = 4, ab_sampleRate = 24000,
          ab_channels = [[Finite 0, Finite (32767 / 32768), Finite (- 1), Finite (1 / 32768)]]\<rparr> \<and>
   int16_loop [Finite 0, Finite (32767 / 32768), Finite (- 1), Finite (1 / 32768)] 0
     [0, 0, 0, 0] = [0, 32767, - 32768, 1] \<and>
   floatSampleToPcm16 (int16_div_32768 (- 32768)) = - 32768"
proof -
  have d: "decodeAudioData [0, 0, 255, 127, 0, 128, 1, 0] outputAudioContext 24000 1 =
     Inr \<lparr>ab_numberOfChannels = 1, ab_length = 4, ab_sampleRate = 24000,
          ab_channels = [[Finite 0, Finite (32767 / 32768), Finite (- 1), Finite (1 / 32768)]]\<rparr>"
    by code_simp
  from pcm16_float_roundtrip[where v = "- 32768" and data = "[0, 0, 255, 127, 0, 128, 1, 0]"
      and ctx = outputAudioContext and sampleRate = 24000 and buffer =
      "\<lparr>ab_numberOfChannels = 1, ab_length = 4, ab_sampleRate = 24000,
          ab_channels = [[Finite 0, Finite (32767 / 32768), Finite (- 1), Finite (1 / 32768)]]\<rparr>"] d
  show ?thesis by simp
qed




text \<open>
  Claim C6. Take a byte buffer of whole frames of signed 16-bit samples (an even number
  of bytes, at least one frame, a whole number of frames for the channel count), and a
  channel count and a positive sample rate that the context supports. The decoder
  returns a buffer with that many channels and one sample per frame. Channel \<open>c\<close> holds
  at position \<open>i\<close> the sample number \<open>k = i * numChannels + c\<close> of the input, that is the
  two's complement reading of the bytes \<open>2k\<close> (low) and \<open>2k + 1\<close> (high), divided by
  32768. Every sample of every channel lies in \<open>[-1, 1]\<close>.
\<close>

theorem pcm16_decode_unit_range:
  assumes "even (length data)" and "data \<noteq> []" and "0 < numChannels"
    and "numChannels dvd length data div 2" and "0 < sampleRate"
    and "numChannels \<le> ctx_maxChannels ctx"
    and "ctx_minSampleRate ctx \<le> sampleRate" and "sampleRate \<le> ctx_maxSampleRate ctx"
  shows "\<exists>buffer. decodeAudioData data ctx sampleRate numChannels = Inr buffer \<and>
     ab_numberOfChannels buffer = numChannels \<and>
     ab_length buffer = length data div 2 div numChannels \<and>
     ab_sampleRate buffer = sampleRate \<and>
     ab_channels buffer =
       map (\<lambda>c. map (\<lambda>i. Finite (of_int
                  (let k = i * numChannels + c;
                       u = uint (data ! (2 * k)) + 256 * uint (data ! (2 * k + 1))
                   in if u < 32768 then u else u - 65536) / 32768))
                [0..<length data div 2 div numChannels]) [0..<numChannels] \<and>
     list_all (list_all (\<lambda>x. case x of Finite q \<Rightarrow> - 1 \<le> q \<and> q \<le> 1 | _ \<Rightarrow> False))
       (ab_channels buffer)"
proof -
  let ?d = "int16_pairs data"
  let ?L = "length data div 2 div numChannels"
  have "2 \<le> length data"
    using assms(1,2) by (cases data rule: int16_pairs.cases) simp_all
  then have "0 < length data div 2" by simp
  with assms(3,4) have L: "0 < ?L"
    by (auto simp: dvd_def)
  then have "0 < length ?d div numChannels"
    by (simp only: length_int16_pairs)
  from decodeAudioData_success[OF assms(1,3) this assms(5-8)]
  have dec: "decodeAudioData data ctx sampleRate numChannels =
     Inr \<lparr>ab_numberOfChannels = numChannels, ab_length = ?L, ab_sampleRate = sampleRate,
          ab_channels = map (\<lambda>c. map (\<lambda>i. int16_div_32768 (?d ! (i * numChannels + c)))
                                    [0..<?L]) [0..<numChannels]\<rparr>"
    by (simp only: length_int16_pairs)
  have idx: "i * numChannels + c < length data div 2" if "i < ?L" "c < numChannels" for i c
    using that by (rule frame_index_bound)
  have ch: "map (\<lambda>c. map (\<lambda>i. int16_div_32768 (?d ! (i * numChannels + c))) [0..<?L])
        [0..<numChannels] =
      map (\<lambda>c. map (\<lambda>i. Finite (of_int
                  (let k = i * numChannels + c;
                       u = uint (data ! (2 * k)) + 256 * uint (data ! (2 * k + 1))
                   in if u < 32768 then u else u - 65536) / 32768))
                [0..<?L]) [0..<numChannels]"
    by (intro map_cong refl) (simp add: sample_of_bytes[OF idx] Let_def)
  have rng: "list_all (list_all (\<lambda>x. case x of Finite q \<Rightarrow> - 1 \<le> q \<and> q \<le> 1 | _ \<Rightarrow> False))
      (map (\<lambda>c. map (\<lambda>i. int16_div_32768 (?d ! (i * numChannels + c))) [0..<?L])
        [0..<numChannels])"
    using in_unit_range_sample
    by (auto simp: list_all_iff in_unit_range_case)
  show ?thesis
    unfolding dec using ch rng by simp
qed

theorem pcm16_decode_unit_range_witness:
  "even (length [0, 0, 255, 127, 0, 128, 1, 0 :: uint8]) \<and>
   (2::nat) dvd length [0, 0, 255, 127, 0, 128, 1, 0 :: uint8] div 2 \<and>
   (2::nat) \<le> ctx_maxChannels outputAudioContext \<and>
   ctx_minSampleRate outputAudioContext \<le> 24000 \<and>
   24000 \<le> ctx_maxSampleRate outputAudioContext \<and>
   decodeAudioData [0, 0, 255, 127, 0, 128, 1, 0] outputAudioContext 24000 2 =
     Inr \<lparr>ab_numberOfChannels = 2, ab_length = 2, ab_sampleRate = 24000,
          ab_channels = [[Finite 0, Finite (- 1)],
                         [Finite (32767 / 32768), Finite (1 / 32768)]]\<rparr>"
proof -
  have h: "even (length [0, 0, 255, 127, 0, 128, 1, 0 :: uint8])"
    "[0, 0, 255, 127, 0, 128, 1, 0 :: uint8] \<noteq> []" "0 < (2::nat)"
    "(2::nat) dvd length [0, 0, 255, 127, 0, 128, 1, 0 :: uint8] div 2" "0 < (24000::rat)"
    "(2::nat) \<le> ctx_maxChannels outputAudioContext"
    "ctx_minSampleRate outputAudioContext \<le> 24000"
    "24000 \<le> ctx_maxSampleRate outputAudioContext"
    by (simp_all add: outputAudioContext_def)
  have u: "[0..<2] = [0, 1]"
    by (simp add: upt_rec)
  from pcm16_decode_unit_range[OF h] obtain buffer where
    "decodeAudioData [0, 0, 255, 127, 0, 128, 1, 0] outputAudioContext 24000 2 = Inr buffer"
    "ab_numberOfChannels buffer = 2" "ab_length buffer = 2" "ab_sampleRate buffer = 24000"
    "ab_channels buffer = [[Finite 0, Finite (- 1)], [Finite (32767 / 32768), Finite (1 / 32768)]]"
    by (auto simp: u Let_def)
  then show ?thesis using h by (cases buffer) simp
qed

section \<open>The three copies of the decoder\<close>

lemma overview_inner_eq:
  "overview_inner d n c f i cd = live_inner d n c f i cd"
proof (induction d n c f i cd rule: live_inner.induct)
  case (1 d n c f i cd)
  show ?case
  proof (cases "of_nat i < f")
    case True
    with 1 show ?thesis
      by (subst overview_inner.simps, subst live_inner.simps) simp
  next
    case False
    then show ?thesis
      by (subst overview_inner.simps, subst live_inner.simps) simp
  qed
qed

lemma studio_inner_eq:
  "studio_inner d n c f i cd = live_inner d n c f i cd"
proof (induction d n c f i cd rule: live_inner.induct)
  case (1 d n c f i cd)
  show ?case
  proof (cases "of_nat i < f")
    case True
    with 1 show ?thesis
      by (subst studio_inner.simps, subst live_inner.simps) simp
  next
    case False
    then show ?thesis
      by (subst studio_inner.simps, subst live_inner.simps) simp
  qed
qed

lemma overview_outer_eq:
  "overview_outer d n f ch b = live_outer d n f ch b"
proof (induction d n f ch b rule: live_outer.induct)
  case (1 d n f ch b)
  show ?case
  proof (cases "ch < n")
    case True
    show ?thesis
    proof (cases "getChannelData b ch")
      case (Inl e)
      with True show ?thesis
        by (subst overview_outer.simps, subst live_outer.simps) simp
    next
      case (Inr channelData)
      with True 1[OF True Inr] show ?thesis
        by (subst overview_outer.simps, subst live_outer.simps)
           (simp add: overview_inner_eq)
    qed
  next
    case False
    then show ?thesis
      by (subst overview_outer.simps, subst live_outer.simps) simp
  qed
qed

lemma studio_outer_eq:
  "studio_outer d n f ch b = live_outer d n f ch b"
proof (induction d n f ch b rule: live_outer.induct)
  case (1 d n f ch b)
  show ?case
  proof (cases "ch < n")
    case True
    show ?thesis
    proof (cases "getChannelData b ch")
      case (Inl e)
      with True show ?thesis
        by (subst studio_outer.simps, subst live_outer.simps) simp
    next
      case (Inr channelData)
      with True 1[OF True Inr] show ?thesis
        by (subst studio_outer.simps, subst live_outer.simps)
           (simp add: studio_inner_eq)
    qed
  next
    case False
    then show ?thesis
      by (subst studio_outer.simps, subst live_outer.simps) simp
  qed
qed

text \<open>
  Claim C10. The decoders of the live conversation, of the audio overview and of the
  studio hub agree on every input: the same bytes, sample rate and channel count give
  the same exception or the same buffer, with the same samples in every channel.
\<close>

theorem decoders_agree:
  "overview_decodeAudioData data ctx sampleRate numChannels =
     decodeAudioData data ctx sampleRate numChannels \<and>
   studio_decodeAudioData data ctx sampleRate numChannels =
     decodeAudioData data ctx sampleRate numChannels"
proof -
  have "overview_outer = live_outer" "studio_outer = live_outer"
    by (intro ext, rule overview_outer_eq) (intro ext, rule studio_outer_eq)
  then show ?thesis
    by (simp only: overview_decodeAudioData_def studio_decodeAudioData_def decodeAudioData_def)
qed

theorem decoders_agree_witness:
  "overview_decodeAudioData [0, 0, 255, 127, 0, 128, 1, 0] outputAudioContext 24000 2 =
     Inr \<lparr>ab_numberOfChannels = 2, ab_length = 2, ab_sampleRate = 24000,
          ab_channels = [[Finite 0, Finite (- 1)], [Finite (32767 / 32768), Finite (1 / 32768)]]\<rparr> \<and>
   studio_decodeAudioData [0, 0, 255, 127, 0, 128, 1, 0] outputAudioContext 24000 2 =
     Inr \<lparr>ab_numberOfChannels = 2, ab_length = 2, ab_sampleRate = 24000,
          ab_channels = [[Finite 0, Finite (- 1)], [Finite (32767 / 32768), Finite (1 / 32768)]]\<rparr>"
proof -
  have d: "decodeAudioData [0, 0, 255, 127, 0, 128, 1, 0] outputAudioContext 24000 2 =
     Inr \<lparr>ab_numberOfChannels = 2, ab_length = 2, ab_sampleRate = 24000,
          ab_channels = [[Finite 0, Finite (- 1)], [Finite (32767 / 32768), Finite (1 / 32768)]]\<rparr>"
    by code_simp
  from decoders_agree[of "[0, 0, 255, 127, 0, 128, 1, 0]" outputAudioContext 24000 2] d
  show ?thesis
    by simp
qed

section \<open>The playback scheduler and the session flag\<close>

subsection \<open>Scheduling\<close>

lemma enqueue_started:
  "started (enqueue now buffer st) =
     started st @ [\<lparr>node_id = created st, node_buffer = buffer,
                    node_start = max (nextStartTimeRef st) now\<rparr>]"
  by (simp add: enqueue_def play_def anchor_def Let_def)

lemma enqueue_next:
  "nextStartTimeRef (enqueue now buffer st) = max (nextStartTimeRef st) now + duration buffer"
  by (simp add: enqueue_def play_def anchor_def Let_def)

lemma onmessage_enqueue:
  "msg_data message = Inr (Some base64) \<Longrightarrow> base64 \<noteq> [] \<Longrightarrow>
   decode_segment base64 = Inr buffer \<Longrightarrow>
   \<not> msg_interrupted message \<Longrightarrow> onmessage now message st = (enqueue now buffer st, None)"
  by (simp add: onmessage_def enqueue_def)

lemma onmessage_cases:
  "snd (onmessage now message st) = None \<Longrightarrow>
   \<exists>st2. (st2 = st \<or> (\<exists>buffer. st2 = enqueue now buffer st)) \<and>
     fst (onmessage now message st) = (if msg_interrupted message then interrupt st2 else st2)"
  by (auto simp: onmessage_def enqueue_def Let_def split: option.splits sum.splits if_splits)

lemma duration_segment:
  assumes "decode_segment base64 = Inr buffer"
  shows "0 \<le> duration buffer"
proof -
  from assms obtain bytes where d: "decodeAudioData bytes outputAudioContext 24000 1 = Inr buffer"
    by (auto simp: decode_segment_def split: sum.splits)
  from decodeAudioData_value[OF d] show ?thesis
    by (simp add: duration_def)
qed

lemma back_to_back_snoc:
  "back_to_back new \<Longrightarrow>
   list_all (\<lambda>a. node_start a \<le> node_start n \<and>
                  node_start a + duration (node_buffer a) \<le> node_start n) new \<Longrightarrow>
   back_to_back (new @ [n])"
  by (induction new rule: back_to_back.induct) simp_all

lemma sched_inv_mono: "sched_inv new next \<Longrightarrow> next \<le> next' \<Longrightarrow> sched_inv new next'"
  by (auto simp: sched_inv_def list_all_iff)

lemma sched_inv_enqueue:
  assumes "sched_inv new (nextStartTimeRef st)" and "0 \<le> duration buffer"
  shows "sched_inv (new @ [\<lparr>node_id = created st, node_buffer = buffer,
                    node_start = max (nextStartTimeRef st) now\<rparr>])
           (nextStartTimeRef (enqueue now buffer st))"
proof -
  let ?n = "\<lparr>node_id = created st, node_buffer = buffer,
                    node_start = max (nextStartTimeRef st) now\<rparr>"
  have a: "list_all (\<lambda>a. node_start a \<le> node_start ?n \<and>
                  node_start a + duration (node_buffer a) \<le> node_start ?n) new"
    using assms(1) by (auto simp: sched_inv_def list_all_iff)
  have b: "back_to_back (new @ [?n])"
    using assms(1) a by (intro back_to_back_snoc) (simp_all add: sched_inv_def)
  have c: "list_all (\<lambda>a. node_start a \<le> nextStartTimeRef (enqueue now buffer st) \<and>
         node_start a + duration (node_buffer a) \<le> nextStartTimeRef (enqueue now buffer st))
       (new @ [?n])"
    using assms by (auto simp: sched_inv_def list_all_iff enqueue_next)
  from b c show ?thesis by (simp only: sched_inv_def)
qed

lemma onmessage_step:
  assumes "\<not> msg_interrupted message" and "started st = old @ new"
    and "sched_inv new (nextStartTimeRef st)"
  shows "\<exists>new'. started (fst (onmessage now message st)) = old @ new' \<and>
           sched_inv new' (nextStartTimeRef (fst (onmessage now message st)))"
proof (cases "msg_data message")
  case (Inl e)
  with assms show ?thesis by (simp add: onmessage_def)
next
  case (Inr payload)
  show ?thesis
  proof (cases payload)
    case None
    with Inr assms show ?thesis by (simp add: onmessage_def)
  next
    case (Some base64)
    with Inr have md: "msg_data message = Inr (Some base64)" by simp
    show ?thesis
    proof (cases "base64 = []")
      case True
      with md assms show ?thesis by (simp add: onmessage_def)
    next
      case False
      show ?thesis
      proof (cases "decode_segment base64")
        case (Inl e)
        with md False have "fst (onmessage now message st) = anchor now st"
          by (simp add: onmessage_def)
        moreover have "sched_inv new (nextStartTimeRef (anchor now st))"
          using assms(3) by (rule sched_inv_mono) (simp add: anchor_def)
        ultimately show ?thesis using assms(2) by (simp add: anchor_def)
      next
        case (Inr buffer)
        from onmessage_enqueue[OF md False Inr assms(1)]
        have "fst (onmessage now message st) = enqueue now buffer st" by simp
        then show ?thesis
          using sched_inv_enqueue[OF assms(3) duration_segment[OF Inr], of now] assms(2)
          by (simp add: enqueue_started)
      qed
    qed
  qed
qed

lemma run_messages_inv:
  "list_all (\<lambda>(now, m). \<not> msg_interrupted m) evs \<Longrightarrow> started st = old @ new \<Longrightarrow>
   sched_inv new (nextStartTimeRef st) \<Longrightarrow>
   \<exists>new'. started (run_messages evs st) = old @ new' \<and>
          sched_inv new' (nextStartTimeRef (run_messages evs st))"
proof (induction evs arbitrary: st new)
  case Nil
  then show ?case by simp
next
  case (Cons ev evs)
  obtain now m where ev: "ev = (now, m)" by (cases ev)
  with Cons.prems(1) have ni: "\<not> msg_interrupted m" and rest: "list_all (\<lambda>(now, m). \<not> msg_interrupted m) evs"
    by simp_all
  from onmessage_step[OF ni Cons.prems(2,3), of now]
  obtain new' where "started (fst (onmessage now m st)) = old @ new'"
    "sched_inv new' (nextStartTimeRef (fst (onmessage now m st)))"
    by blast
  from Cons.IH[OF rest this] show ?case by (simp add: ev)
qed

lemma run_messages_back_to_back:
  assumes "list_all (\<lambda>(now, m). \<not> msg_interrupted m) evs"
  shows "back_to_back (drop (length (started st)) (started (run_messages evs st)))"
proof -
  have "sched_inv [] (nextStartTimeRef st)" by (simp add: sched_inv_def)
  from run_messages_inv[OF assms _ this, of "started st"]
  show ?thesis by (auto simp: sched_inv_def)
qed

lemma decode_one_sample: "decode_segment (js ''AAA='') = Inr one_sample"
  unfolding one_sample_def by code_simp

text \<open>
  Claim C1. A message whose payload decodes to a buffer, and which is not an
  interruption, makes \<^verbatim>\<open>onmessage\<close> enqueue the buffer: one source node is started at
  the maximum of \<^verbatim>\<open>nextStartTimeRef\<close> and the clock, and \<^verbatim>\<open>nextStartTimeRef\<close> becomes
  that start time plus the buffer's duration. With the cursor at 0, enqueuing a segment
  of 2 seconds at clock 0 moves the cursor to 2; enqueuing a segment of 1 second at
  clock 1/2 then starts it at 2 and moves the cursor to 3. Over any run of messages
  without an interruption, the nodes started by the run are in non-decreasing order of
  start time and none starts before its predecessor ends.
\<close>

theorem enqueue_schedule:
  "(msg_data message = Inr (Some base64) \<and> base64 \<noteq> [] \<and>
    decode_segment base64 = Inr buffer \<and> \<not> msg_interrupted message \<longrightarrow>
      onmessage now message st = (enqueue now buffer st, None)) \<and>
   started (enqueue now buffer st) =
     started st @ [\<lparr>node_id = created st, node_buffer = buffer,
                    node_start = max (nextStartTimeRef st) now\<rparr>] \<and>
   nextStartTimeRef (enqueue now buffer st) = max (nextStartTimeRef st) now + duration buffer \<and>
   (nextStartTimeRef st = 0 \<and> duration A = 2 \<and> duration B = 1 \<longrightarrow>
      nextStartTimeRef (enqueue 0 A st) = 2 \<and>
      node_start (last (started (enqueue (1 / 2) B (enqueue 0 A st)))) = 2 \<and>
      nextStartTimeRef (enqueue (1 / 2) B (enqueue 0 A st)) = 3) \<and>
   (list_all (\<lambda>(now, m). \<not> msg_interrupted m) evs \<longrightarrow>
      back_to_back (drop (length (started st)) (started (run_messages evs st))))"
proof -
  have "nextStartTimeRef (enqueue 0 A st) = 2 \<and>
      node_start (last (started (enqueue (1 / 2) B (enqueue 0 A st)))) = 2 \<and>
      nextStartTimeRef (enqueue (1 / 2) B (enqueue 0 A st)) = 3"
    if "nextStartTimeRef st = 0" "duration A = 2" "duration B = 1"
    using that by (simp add: enqueue_started enqueue_next)
  then show ?thesis
    using onmessage_enqueue[of message base64 buffer now st]
      run_messages_back_to_back[of evs st]
    by (simp add: enqueue_started enqueue_next)
qed

theorem enqueue_schedule_witness:
  "decode_segment (js ''AAA='') = Inr one_sample \<and>
   onmessage (1 / 2) audio_message initial_state = (enqueue (1 / 2) one_sample initial_state, None) \<and>
   nextStartTimeRef (enqueue (1 / 2) one_sample initial_state) = 1 / 2 + 1 / 24000 \<and>
   duration segment_A = 2 \<and> duration segment_B = 1 \<and>
   nextStartTimeRef (enqueue 0 segment_A initial_state) = 2 \<and>
   node_start (last (started (enqueue (1 / 2) segment_B (enqueue 0 segment_A initial_state)))) = 2 \<and>
   nextStartTimeRef (enqueue (1 / 2) segment_B (enqueue 0 segment_A initial_state)) = 3 \<and>
   back_to_back (started (run_messages [(0, audio_message), (1 / 2, audio_message)] initial_state))"
proof -
  have h: "msg_data audio_message = Inr (Some (js ''AAA=''))" "js ''AAA='' \<noteq> []"
    "\<not> msg_interrupted audio_message" "nextStartTimeRef initial_state = 0"
    "duration segment_A = 2" "duration segment_B = 1" "duration one_sample = 1 / 24000"
    "started initial_state = []"
    "list_all (\<lambda>(now, m). \<not> msg_interrupted m) [(0, audio_message), (1 / 2, audio_message)]"
    by (simp_all add: audio_message_def msg_data_def msg_interrupted_def js_def
        initial_state_def duration_def
        segment_A_def segment_B_def one_sample_def)
  from enqueue_schedule[of audio_message "js ''AAA=''" one_sample "1 / 2" initial_state
      segment_A segment_B "[(0, audio_message), (1 / 2, audio_message)]"]
    decode_one_sample h
  show ?thesis by simp
qed

subsection \<open>Interruption, errors, the session flag\<close>

lemma onmessage_isActive: "isActive (fst (onmessage now message st)) = isActive st"
  by (simp add: onmessage_def interrupt_def play_def anchor_def Let_def
      split: option.splits sum.splits)

lemma onmessage_started:
  "msg_data message = Inr (Some base64) \<Longrightarrow> base64 \<noteq> [] \<Longrightarrow>
   decode_segment base64 = Inr buffer \<Longrightarrow>
   started (fst (onmessage now message st)) = started (enqueue now buffer st)"
  by (simp add: onmessage_def enqueue_def interrupt_def)

lemma decode_not_base64: "decode_segment (js ''A'') = Inl InvalidCharacterError"
  by code_simp

lemma playing_state_facts:
  "isActive playing_state" "map node_id (sourcesRef playing_state) = [0, 1]"
  "nextStartTimeRef playing_state = 3" "stopped playing_state = []"
  by (simp_all add: playing_state_def active_state_def enqueue_def play_def anchor_def
      Let_def set_add_def session_connected_def onopen_def initial_state_def
      duration_def segment_A_def segment_B_def)

text \<open>
  Claim C2, as stated, fails: the claim says that whenever an interruption signal is
  received every handle is stopped, the set is emptied and the cursor is put at 0. With
  two nodes in the set and the cursor at 3, a message that carries the flag together
  with a payload that is not base64 makes line 82 throw before line 91 is reached: both
  nodes stay in the set, nothing is stopped and the cursor stays at 3.
\<close>

theorem interrupt_always_counterexample:
  "msg_interrupted malformed_interruption \<and>
   map node_id (sourcesRef playing_state) = [0, 1] \<and>
   stopped playing_state = [] \<and>
   nextStartTimeRef playing_state = 3 \<and>
   snd (onmessage (3 / 2) malformed_interruption playing_state) = Some InvalidCharacterError \<and>
   map node_id (sourcesRef (fst (onmessage (3 / 2) malformed_interruption playing_state))) =
     [0, 1] \<and>
   stopped (fst (onmessage (3 / 2) malformed_interruption playing_state)) = [] \<and>
   nextStartTimeRef (fst (onmessage (3 / 2) malformed_interruption playing_state)) = 3"
proof -
  have m: "msg_interrupted malformed_interruption"
    "msg_data malformed_interruption = Inr (Some (js ''A''))" "js ''A'' \<noteq> []"
    by (simp_all add: malformed_interruption_def msg_interrupted_def msg_data_def js_def)
  then have "onmessage (3 / 2) malformed_interruption playing_state =
      (anchor (3 / 2) playing_state, Some InvalidCharacterError)"
    by (simp add: onmessage_def decode_not_base64)
  with m(1) playing_state_facts show ?thesis
    by (simp add: anchor_def)
qed

text \<open>
  Claim C2, amended. When a message carries the interruption flag and the callback runs
  to its end, that is, neither reading nor decoding the message's audio part throws, the
  resulting state is \<open>interrupt\<close> of the state reached after the audio part, if any; for
  a flagged message whose line 79 finds no payload it is \<open>interrupt\<close> of the state
  before. \<open>interrupt\<close> calls \<^verbatim>\<open>stop\<close> on every node of the set, in order, empties the
  set and puts the cursor at 0; the session flag, the session reference and the
  transport are untouched, and no message changes the session flag. The next audio
  message, at any clock reading \<open>now'\<close> (never negative), starts its node at \<open>now'\<close>.
\<close>

theorem interrupt_resets:
  "(msg_interrupted message \<and> snd (onmessage now message st) = None \<longrightarrow>
      (\<exists>st2. (st2 = st \<or> (\<exists>buffer. st2 = enqueue now buffer st)) \<and>
             fst (onmessage now message st) = interrupt st2)) \<and>
   (msg_interrupted message \<and> msg_data message = Inr None \<longrightarrow>
      onmessage now message st = (interrupt st, None)) \<and>
   stopped (interrupt st) = stopped st @ map node_id (sourcesRef st) \<and>
   sourcesRef (interrupt st) = [] \<and>
   nextStartTimeRef (interrupt st) = 0 \<and>
   isActive (interrupt st) = isActive st \<and>
   sessionRef (interrupt st) = sessionRef st \<and>
   closed (interrupt st) = closed st \<and>
   isActive (fst (onmessage now message st)) = isActive st \<and>
   (0 \<le> now' \<and> msg_data message' = Inr (Some base64) \<and> base64 \<noteq> [] \<and>
    decode_segment base64 = Inr buffer \<longrightarrow>
      started (fst (onmessage now' message' (interrupt st))) =
        started st @ [\<lparr>node_id = created st, node_buffer = buffer, node_start = now'\<rparr>])"
proof -
  have "\<exists>st2. (st2 = st \<or> (\<exists>buffer. st2 = enqueue now buffer st)) \<and>
             fst (onmessage now message st) = interrupt st2"
    if "msg_interrupted message" "snd (onmessage now message st) = None"
    using onmessage_cases[OF that(2)] that(1) by simp
  moreover have "onmessage now message st = (interrupt st, None)"
    if "msg_interrupted message" "msg_data message = Inr None"
    using that by (simp add: onmessage_def)
  moreover have "started (fst (onmessage now' message' (interrupt st))) =
        started st @ [\<lparr>node_id = created st, node_buffer = buffer, node_start = now'\<rparr>]"
    if "0 \<le> now'" "msg_data message' = Inr (Some base64)" "base64 \<noteq> []"
      "decode_segment base64 = Inr buffer"
    using that(1) onmessage_started[OF that(2-4), of now' "interrupt st"]
    by (simp add: enqueue_started interrupt_def)
  ultimately show ?thesis
    by (simp add: onmessage_isActive) (simp add: interrupt_def)
qed

theorem interrupt_resets_witness:
  "msg_interrupted interruption_message \<and> msg_data interruption_message = Inr None \<and>
   snd (onmessage (3 / 2) interruption_message playing_state) = None \<and>
   isActive playing_state \<and> map node_id (sourcesRef playing_state) = [0, 1] \<and>
   nextStartTimeRef playing_state = 3 \<and>
   fst (onmessage (3 / 2) interruption_message playing_state) = interrupt playing_state \<and>
   stopped (interrupt playing_state) = [0, 1] \<and>
   sourcesRef (interrupt playing_state) = [] \<and>
   nextStartTimeRef (interrupt playing_state) = 0 \<and>
   isActive (interrupt playing_state) \<and>
   (0::rat) \<le> 8 / 5 \<and> decode_segment (js ''AAA='') = Inr one_sample \<and>
   node_start (last (started (fst (onmessage (8 / 5) audio_message (interrupt playing_state))))) =
     8 / 5"
proof -
  have h: "msg_interrupted interruption_message" "msg_data interruption_message = Inr None"
    "(0::rat) \<le> 8 / 5" "msg_data audio_message = Inr (Some (js ''AAA=''))"
    "js ''AAA='' \<noteq> []"
    by (simp_all add: interruption_message_def audio_message_def msg_data_def
        msg_interrupted_def js_def)
  have s: "snd (onmessage (3 / 2) interruption_message playing_state) = None"
    using h(1,2) by (simp add: onmessage_def)
  from interrupt_resets[of interruption_message "3 / 2" playing_state "8 / 5" audio_message
      "js ''AAA=''" one_sample] h playing_state_facts s decode_one_sample
  show ?thesis by simp
qed

text \<open>
  Claim C7, as stated, fails: the claim says that the error callback moves an open
  session to the closed state. In a session that is active, after \<^verbatim>\<open>onerror\<close> the
  session is still active.
\<close>

theorem onerror_closes_counterexample:
  "isActive active_state \<and> isActive (onerror ''transport error'' active_state)"
  by (simp add: active_state_def onerror_def session_connected_def onopen_def)

text \<open>
  Claim C7, amended. \<^verbatim>\<open>onerror\<close> logs the error and changes nothing else: the session
  flag, the session reference, the transport and the playback state keep their values.
  The flag is cleared by \<^verbatim>\<open>onclose\<close> and by \<^verbatim>\<open>stopSession\<close>.
\<close>

theorem onerror_only_logs:
  "isActive (onerror e st) = isActive st \<and>
   sessionRef (onerror e st) = sessionRef st \<and>
   closed (onerror e st) = closed st \<and>
   sourcesRef (onerror e st) = sourcesRef st \<and>
   nextStartTimeRef (onerror e st) = nextStartTimeRef st \<and>
   console (onerror e st) = console st @ [e] \<and>
   \<not> isActive (onclose st) \<and>
   \<not> isActive (stopSession st)"
  by (simp add: onerror_def onclose_def stopSession_def)

theorem onerror_only_logs_witness:
  "isActive active_state \<and> isActive (onerror ''transport error'' active_state) \<and>
   console (onerror ''transport error'' active_state) = [''transport error''] \<and>
   \<not> isActive (onclose (onerror ''transport error'' active_state))"
proof -
  have "isActive active_state" "console active_state = []"
    by (simp_all add: active_state_def session_connected_def onopen_def initial_state_def)
  with onerror_only_logs[of "''transport error''" active_state]
    onerror_only_logs[of "''x''" "onerror ''transport error'' active_state"]
  show ?thesis by simp
qed

text \<open>
  Claim C8, as stated, fails: the claim says that an audio message received while the
  session is not active is dropped. In a session that has been stopped, with nothing
  scheduled and the cursor at 0, an audio message received at clock 5 starts a source
  node at 5, adds it to the set and moves the cursor.
\<close>

theorem inactive_audio_dropped_counterexample:
  "\<not> isActive stopped_state \<and>
   started stopped_state = [] \<and> nextStartTimeRef stopped_state = 0 \<and>
   sourcesRef stopped_state = [] \<and>
   snd (onmessage 5 audio_message stopped_state) = None \<and>
   started (fst (onmessage 5 audio_message stopped_state)) =
     [\<lparr>node_id = 0, node_buffer = one_sample, node_start = 5\<rparr>] \<and>
   sourcesRef (fst (onmessage 5 audio_message stopped_state)) =
     [\<lparr>node_id = 0, node_buffer = one_sample, node_start = 5\<rparr>] \<and>
   nextStartTimeRef (fst (onmessage 5 audio_message stopped_state)) = 5 + 1 / 24000"
proof -
  have "onmessage 5 audio_message stopped_state = (enqueue 5 one_sample stopped_state, None)"
    by (rule onmessage_enqueue[OF _ _ decode_one_sample])
       (simp_all add: audio_message_def msg_data_def msg_interrupted_def js_def)
  then show ?thesis
    by (simp add: enqueue_def play_def anchor_def Let_def set_add_def
        stopped_state_def stopSession_def active_state_def session_connected_def onopen_def
        initial_state_def duration_def one_sample_def)
qed

lemma anchor_isActive: "anchor now (st\<lparr>isActive := b\<rparr>) = (anchor now st)\<lparr>isActive := b\<rparr>"
  by (simp add: anchor_def)

lemma play_isActive: "play buffer (st\<lparr>isActive := b\<rparr>) = (play buffer st)\<lparr>isActive := b\<rparr>"
  by (simp add: play_def Let_def)

lemma interrupt_isActive: "interrupt (st\<lparr>isActive := b\<rparr>) = (interrupt st)\<lparr>isActive := b\<rparr>"
  by (simp add: interrupt_def)

text \<open>
  Claim C8, amended. \<^verbatim>\<open>onmessage\<close> does not read the session flag: with the flag set
  to any value \<open>b\<close>, the callback throws or not as before and changes the state as
  before, the flag staying \<open>b\<close>. An audio payload is decoded and scheduled whether the
  session is active or not.
\<close>

theorem onmessage_ignores_isActive:
  "onmessage now message (st\<lparr>isActive := b\<rparr>) =
     ((fst (onmessage now message st))\<lparr>isActive := b\<rparr>, snd (onmessage now message st))"
  by (simp add: onmessage_def anchor_isActive play_isActive interrupt_isActive Let_def
      split: option.splits sum.splits)

theorem onmessage_ignores_isActive_witness:
  "onmessage 5 audio_message (active_state\<lparr>isActive := False\<rparr>) =
     ((enqueue 5 one_sample active_state)\<lparr>isActive := False\<rparr>, None)"
proof -
  have "onmessage 5 audio_message active_state = (enqueue 5 one_sample active_state, None)"
    by (rule onmessage_enqueue[OF _ _ decode_one_sample])
       (simp_all add: audio_message_def msg_data_def msg_interrupted_def js_def)
  with onmessage_ignores_isActive[where now = 5 and message = audio_message and st = active_state and b = False]
  show ?thesis by simp
qed

text \<open>
  Claim C9. \<^verbatim>\<open>stopSession\<close> is idempotent: a second call returns the state the first
  call produced. From an active session holding a session reference, the first call
  closes that session once, clears the reference and clears the flag; the second call
  closes nothing. \<^verbatim>\<open>stopSession\<close> has no failing branch.
\<close>

theorem stopSession_idempotent:
  "stopSession (stopSession st) = stopSession st \<and>
   (isActive st \<and> sessionRef st = Some session \<longrightarrow>
      \<not> isActive (stopSession st) \<and>
      sessionRef (stopSession st) = None \<and>
      closed (stopSession st) = closed st @ [session] \<and>
      closed (stopSession (stopSession st)) = closed st @ [session])"
  by (simp add: stopSession_def split: option.splits)

theorem stopSession_idempotent_witness:
  "isActive active_state \<and> sessionRef active_state = Some 7 \<and>
   \<not> isActive (stopSession active_state) \<and>
   sessionRef (stopSession active_state) = None \<and>
   closed (stopSession active_state) = [7] \<and>
   closed (stopSession (stopSession active_state)) = [7] \<and>
   stopSession (stopSession active_state) = stopSession active_state"
proof -
  have "isActive active_state" "sessionRef active_state = Some 7" "closed active_state = []"
    by (simp_all add: active_state_def session_connected_def onopen_def initial_state_def)
  with stopSession_idempotent[of active_state 7] show ?thesis by simp
qed

end
